theory Spec2Isabelle
  imports Complex_Main "HOL-Library.Word"
begin

section \<open>Data model\<close>

text \<open>
  The browser's \<open>ImageData\<close>: a width, a height and a \<open>Uint8ClampedArray\<close> of
  \<open>4 * width * height\<close> bytes in RGBA order, row-major. JavaScript numbers that hold
  indices and coordinates are modelled as \<open>int\<close> (they can become negative, as \<open>x + dx\<close>
  does in the flood fill), numbers that hold measurements as \<open>real\<close>. The reals stand for
  IEEE doubles. That is exact for the integers and half-integers that the sampling grid of
  pitch 1 computes with; the rounding of an operation is written out with \<open>fl\<close>
  (section Floating-point arithmetic) where a statement is about the value of an inexact
  result.
\<close>

type_synonym byte = "8 word"

type_synonym rgba = "byte \<times> byte \<times> byte \<times> byte"

record ImageData =
  width :: nat
  height :: nat
  data :: "byte list"

text \<open>\<open>interface PixelSample { x; y; color }\<close> (useImageAnalysis.ts lines 10-14).\<close>

record PixelSample =
  sample_x :: int
  sample_y :: int
  sample_color :: rgba

text \<open>\<open>interface FFTResult { x; fft; magnitudes }\<close> (useImageAnalysis.ts lines 4-8).\<close>

record FFTResult =
  result_x :: int
  result_fft :: "complex list"
  magnitudes :: "real list"

text \<open>\<open>interface ColorCount { color; count; rgba }\<close> (ImageFFTAnalyzer.tsx lines 17-21).\<close>

record ColorCount =
  color :: string
  count :: nat
  rgba :: rgba

text \<open>
  Reading a typed array outside its range gives \<open>undefined\<close> (here \<open>None\<close>); writing
  outside its range is ignored.
\<close>

definition rd :: "byte list \<Rightarrow> int \<Rightarrow> byte option" where
  "rd d i = (if 0 \<le> i \<and> i < int (length d) then Some (d ! nat i) else None)"

definition wr :: "byte list \<Rightarrow> int \<Rightarrow> byte \<Rightarrow> byte list" where
  "wr d i v = (if 0 \<le> i \<and> i < int (length d) then d[nat i := v] else d)"

text \<open>
  The numeric value of a byte that the analysis reads. For an \<open>ImageData\<close> and a column
  inside the image every such read is in range.
\<close>

definition byteNum :: "ImageData \<Rightarrow> int \<Rightarrow> real" where
  "byteNum img i = real (unat (data img ! nat i))"

section \<open>Line selection (performFFT, useImageAnalysis.ts lines 156-167)\<close>

text \<open>
  \<open>Math.random()\<close> is a stream of draws: \<open>random k\<close> is the value of the \<open>k\<close>-th call.
  The loop has no other exit than its condition, so it is a partial function: \<open>None\<close>
  means that it never returns.

  The product \<open>Math.random() * imgWidth\<close> is written exactly. The code floors the rounded
  product, which for a double below 1 is again a column of the image, and every column of
  the image is the floor of the exact product for some value in [0, 1) (lemmas
  \<open>rounded_draw_in_range\<close> and \<open>column_realised\<close> below). The statements about the
  loop are made for every source, so they are statements about every sequence of columns
  that the code can draw.
\<close>

partial_function (option) selectLines ::
  "(nat \<Rightarrow> real) \<Rightarrow> nat \<Rightarrow> nat \<Rightarrow> int list \<Rightarrow> int set \<Rightarrow> int list option" where
  "selectLines random imgWidth k lines usedPositions =
     (if length lines < 30 \<and> length lines < imgWidth then
        (let x = \<lfloor>random k * real imgWidth\<rfloor> in
         if x \<notin> usedPositions
         then selectLines random imgWidth (Suc k) (lines @ [x]) (insert x usedPositions)
         else selectLines random imgWidth (Suc k) lines usedPositions)
      else Some lines)"

declare selectLines.simps [code]

section \<open>Per-line analysis (performFFT, useImageAnalysis.ts lines 171-211)\<close>

definition lineData :: "ImageData \<Rightarrow> int \<Rightarrow> real list" where
  "lineData img x =
     map (\<lambda>y. let index = (int y * int (width img) + x) * 4 in
              (byteNum img index + byteNum img (index + 1) + byteNum img (index + 2)) / 3)
         [0 ..< height img]"

definition derivatives :: "real list \<Rightarrow> real list" where
  "derivatives ld = map (\<lambda>i. \<bar>ld ! i - ld ! (i - 1)\<bar>) [1 ..< length ld]"

text \<open>
  Modelled from the spec: \<open>math.fft\<close> of the mathjs library, which is not part of the
  repository. Section 4.2 of the specification: the discrete Fourier transform of the
  real signal taken as a complex sequence with zero imaginary part; the transform length
  equals the input length (no padding).
\<close>

definition fft :: "real list \<Rightarrow> complex list" where
  "fft xs =
     map (\<lambda>k. \<Sum>n < length xs.
                complex_of_real (xs ! n) *
                cis (- 2 * pi * real k * real n / real (length xs)))
         [0 ..< length xs]"

definition magnitude :: "complex \<Rightarrow> real" where
  "magnitude c = sqrt ((Re c)\<^sup>2 + (Im c)\<^sup>2)"

definition analyseLine :: "ImageData \<Rightarrow> int \<Rightarrow> FFTResult" where
  "analyseLine img x =
     (let f = fft (derivatives (lineData img x)) in
      \<lparr>result_x = x, result_fft = f, magnitudes = map magnitude f\<rparr>)"

section \<open>Aggregation (performFFT, useImageAnalysis.ts lines 213-252)\<close>

datatype fft_error = NoFFTResults | InvalidMagnitudeLengths

definition combineMagnitudes :: "real list list \<Rightarrow> nat \<Rightarrow> fft_error + real list" where
  "combineMagnitudes allMagnitudes imgHeight =
     (if length allMagnitudes = 0 then Inl NoFFTResults
      else
        let magnitudeLengths = map length allMagnitudes in
        if length magnitudeLengths = 0 \<or> Max (set magnitudeLengths) = 0
        then Inl InvalidMagnitudeLengths
        else
          let maxLength = Max (set magnitudeLengths);
              maxFreq = max 1 (min maxLength (imgHeight div 2));
              safeMaxFreq = min maxFreq 10000
          in Inr (map (\<lambda>i. fold (\<lambda>ms acc. if i < length ms then acc + ms ! i else acc)
                                 allMagnitudes 0)
                      [0 ..< safeMaxFreq]))"

section \<open>Floating-point arithmetic\<close>

text \<open>
  A JavaScript number is an IEEE 754 binary64 value, and the result of an arithmetic
  operation is the exact result rounded to the nearest such value, ties to the even
  significand. \<open>fl x\<close> is that rounding of the real \<open>x\<close>: the doubles next to \<open>x\<close> are
  the integer multiples of \<open>2 powr ulpExponent x\<close>, which leaves 53 significant bits to a
  normal number and the spacing \<open>2 powr (- 1074)\<close> below the normal range. Results
  beyond the largest double, which JavaScript gives as \<open>Infinity\<close>, and \<open>NaN\<close> have no
  counterpart among the reals; the statements that depend on \<open>fl\<close> bound their inputs so
  that they do not arise.

  The Gaussian smoother, whose output values a statement below is about, rounds every
  operation with \<open>fl\<close>. Where only the number of values or their order matters, the
  arithmetic is written with exact reals.
\<close>

definition roundTiesToEven :: "real \<Rightarrow> int" where
  "roundTiesToEven y =
     (let n = \<lfloor>y\<rfloor> in
      if y - of_int n < 1 / 2 then n
      else if 1 / 2 < y - of_int n then n + 1
      else if even n then n else n + 1)"

definition ulpExponent :: "real \<Rightarrow> int" where
  "ulpExponent x = max (\<lfloor>log 2 \<bar>x\<bar>\<rfloor> - 52) (- 1074)"

definition fl :: "real \<Rightarrow> real" where
  "fl x = (if x = 0 then 0
           else of_int (roundTiesToEven (x / 2 powr of_int (ulpExponent x))) *
                2 powr of_int (ulpExponent x))"

text \<open>
  \<open>Math.exp\<close>. ECMAScript leaves its accuracy to the implementation; it is taken as the
  correctly rounded exponential. The proofs use only that its values on the arguments of
  the kernel lie between 1/4 and 101/100.
\<close>

definition mathExp :: "real \<Rightarrow> real" where
  "mathExp x = fl (exp x)"

text \<open>
  The two constants of the error of one rounding,
  \<open>\<bar>fl x - x\<bar> \<le> unitRoundoff * \<bar>x\<bar> + smallestError\<close>: half the spacing of the
  doubles next to 1, and half the spacing of the doubles below the normal range.
\<close>

definition unitRoundoff :: real where
  "unitRoundoff = 1 / 2 ^ 53"

definition smallestError :: real where
  "smallestError = 1 / 2 ^ 1075"

section \<open>Gaussian smoothing (applyGaussianSmoothing, useImageAnalysis.ts lines 290-328)\<close>

text \<open>
  Lines 292-308: the kernel, normalised by the sum of its values. Every operation on
  numbers is rounded: the product \<open>i * i\<close>, the products \<open>2 * sigma\<close> and
  \<open>(2 * sigma) * sigma\<close>, the quotient, \<open>sum += value\<close> and \<open>kernel[i] /= sum\<close>.
\<close>

definition kernelRadius :: "nat \<Rightarrow> int" where
  "kernelRadius kernelSize =
     (let size = (if kernelSize mod 2 = 0 then kernelSize + 1 else kernelSize)
      in int (size div 2))"

definition rawKernel :: "real \<Rightarrow> nat \<Rightarrow> real list" where
  "rawKernel sigma kernelSize =
     map (\<lambda>i. mathExp (fl (- fl (real_of_int (i * i)) / fl (fl (2 * sigma) * sigma))))
       [- kernelRadius kernelSize .. kernelRadius kernelSize]"

definition gaussianKernel :: "real \<Rightarrow> nat \<Rightarrow> real list" where
  "gaussianKernel sigma kernelSize =
     (let raw = rawKernel sigma kernelSize;
          sum = fold (\<lambda>v s. fl (s + v)) raw 0
      in map (\<lambda>v. fl (v / sum)) raw)"

text \<open>
  Lines 310-327: the convolution, \<open>value += data[index] * kernel[j + radius]\<close> with the
  product and the sum rounded; an index outside the array adds nothing.
\<close>

definition applyGaussianSmoothing :: "real list \<Rightarrow> real \<Rightarrow> nat \<Rightarrow> real list" where
  "applyGaussianSmoothing d sigma kernelSize =
     (let radius = kernelRadius kernelSize;
          kernel = gaussianKernel sigma kernelSize
      in map (\<lambda>i. fold (\<lambda>j v. let index = int i + j in
                               if index \<ge> 0 \<and> index < int (length d)
                               then fl (v + fl (d ! nat index * kernel ! nat (j + radius)))
                               else v)
                        [- radius .. radius] 0)
             [0 ..< length d])"

section \<open>Peak detection (performFFT, useImageAnalysis.ts lines 257-268)\<close>

text \<open>
  The scan keeps the pair (maxMagnitude, peakFrequency), starts from (0, 0) and visits the
  indices startIndex = 5, 6, ... below the length of the smoothed spectrum; an index replaces
  the pair only on a strict greater-than comparison.
\<close>

definition startIndex :: nat where
  "startIndex = 5"

definition peakStep :: "real list \<Rightarrow> nat \<Rightarrow> real \<times> nat \<Rightarrow> real \<times> nat" where
  "peakStep smoothedMagnitudes i acc =
     (if smoothedMagnitudes ! i > fst acc then (smoothedMagnitudes ! i, i) else acc)"

definition peakScan :: "real list \<Rightarrow> real \<times> nat" where
  "peakScan smoothedMagnitudes =
     fold (peakStep smoothedMagnitudes) [startIndex ..< length smoothedMagnitudes] (0, 0)"

definition findPeak :: "real list \<Rightarrow> nat" where
  "findPeak smoothedMagnitudes = snd (peakScan smoothedMagnitudes)"

section \<open>Grid sampling (generatePixelSamples, useImageAnalysis.ts lines 331-397)\<close>

text \<open>
  The state of the \<open>useImageAnalysis\<close> hook that the analysis writes (lines 17-27); the
  canvas references and the fields used only for drawing are left out.
\<close>

record hook_state =
  imageData :: "ImageData option"
  fftResults :: "FFTResult list"
  combinedFFT :: "real list"
  smoothedFFT :: "real list"
  selectedLines :: "int list"
  processing :: bool
  dominantFrequency :: "nat option"
  pixelSamples :: "PixelSample list"

text \<open>\<open>Math.round\<close> rounds halves up.\<close>

definition mathRound :: "real \<Rightarrow> int" where
  "mathRound v = \<lfloor>v + 1 / 2\<rfloor>"

definition colorAt :: "ImageData \<Rightarrow> int \<Rightarrow> rgba" where
  "colorAt img index =
     (data img ! nat index, data img ! nat (index + 1),
      data img ! nat (index + 2), data img ! nat (index + 3))"

text \<open>
  Lines 345-389, the same text as lines 222-259 of \<open>generatePixelArt\<close> in
  ImageFFTAnalyzer.tsx: one sample per grid cell, row by row; a cell whose centre is not
  inside the image gives no sample. The quotients and the products are written exactly; at
  pitch 1, for which the statements about the grid are made, the doubles of the code have
  the same values.
\<close>

definition gridSamples :: "int \<Rightarrow> ImageData \<Rightarrow> PixelSample list" where
  "gridSamples frequency img =
     (let imgWidth = width img;
          imgHeight = height img;
          pixelSpacing = real imgHeight / real_of_int frequency;
          estimatedWidth = mathRound (real imgWidth / pixelSpacing);
          estimatedHeight = mathRound (real imgHeight / pixelSpacing)
      in concat (map (\<lambda>gridY. concat (map (\<lambda>gridX.
           let centerX = \<lfloor>(real gridX + 1 / 2) * pixelSpacing\<rfloor>;
               centerY = \<lfloor>(real gridY + 1 / 2) * pixelSpacing\<rfloor>
           in if centerX < int imgWidth \<and> centerY < int imgHeight
              then [\<lparr>sample_x = centerX, sample_y = centerY,
                     sample_color = colorAt img ((centerY * int imgWidth + centerX) * 4)\<rparr>]
              else [])
           [0 ..< nat estimatedWidth])) [0 ..< nat estimatedHeight]))"

definition generatePixelSamples :: "hook_state \<Rightarrow> int \<Rightarrow> ImageData option \<Rightarrow> hook_state" where
  "generatePixelSamples st frequency imgDataParam =
     (let imgDataToProcess = (case imgDataParam of Some i \<Rightarrow> Some i | None \<Rightarrow> imageData st) in
      case imgDataToProcess of
        None \<Rightarrow> st
      | Some img \<Rightarrow> if frequency \<le> 0 then st
                    else st\<lparr>pixelSamples := gridSamples frequency img\<rparr>)"

text \<open>The initial values of the hook's \<open>useState\<close> calls (lines 17-27).\<close>

definition initialState :: hook_state where
  "initialState =
     \<lparr>imageData = None, fftResults = [], combinedFFT = [], smoothedFFT = [],
      selectedLines = [], processing = False, dominantFrequency = None, pixelSamples = []\<rparr>"

text \<open>A source of randomness that always draws 0, for the examples.\<close>

definition alwaysZero :: "nat \<Rightarrow> real" where
  "alwaysZero i = 0"

section \<open>The analysis as a whole (performFFT, useImageAnalysis.ts lines 136-287)\<close>

definition allMagnitudes :: "ImageData \<Rightarrow> int list \<Rightarrow> real list list" where
  "allMagnitudes img lines = map magnitudes (map (analyseLine img) lines)"

text \<open>Lines 169-286: what \<open>performFFT\<close> does once the columns are chosen.\<close>

definition analyseLines :: "hook_state \<Rightarrow> ImageData \<Rightarrow> int list \<Rightarrow> hook_state" where
  "analyseLines st img lines =
     (let st1 = st\<lparr>selectedLines := lines\<rparr>;
          results = map (analyseLine img) lines
      in case combineMagnitudes (map magnitudes results) (height img) of
           Inl e \<Rightarrow> st1\<lparr>processing := False\<rparr>
         | Inr combinedMagnitudes \<Rightarrow>
             let smoothedMagnitudes = applyGaussianSmoothing combinedMagnitudes 2 7;
                 peakFrequency = findPeak smoothedMagnitudes;
                 st2 = st1\<lparr>dominantFrequency := Some peakFrequency,
                           fftResults := results,
                           combinedFFT := combinedMagnitudes,
                           smoothedFFT := smoothedMagnitudes,
                           processing := False\<rparr>
             in if peakFrequency > 0
                then generatePixelSamples st2 (int peakFrequency) (Some img)
                else st2)"

text \<open>
  \<open>performFFT\<close>: \<open>None\<close> when the selection loop never returns; a missing image is the
  early return of line 144, which leaves the state as it is.
\<close>

definition performFFT ::
  "(nat \<Rightarrow> real) \<Rightarrow> hook_state \<Rightarrow> ImageData option \<Rightarrow> hook_state option" where
  "performFFT random st imgDataParam =
     (let imgDataToProcess = (case imgDataParam of Some i \<Rightarrow> Some i | None \<Rightarrow> imageData st) in
      case imgDataToProcess of
        None \<Rightarrow> Some st
      | Some img \<Rightarrow>
          (case selectLines random (width img) 0 [] {} of
             None \<Rightarrow> None
           | Some lines \<Rightarrow> Some (analyseLines (st\<lparr>processing := True\<rparr>) img lines)))"

section \<open>Reconstruction (generatePixelArt, ImageFFTAnalyzer.tsx lines 217-292)\<close>

text \<open>
  The canvas of lines 264-291. A 2D canvas keeps its pixels with the colour channels
  premultiplied by alpha, eight bits a channel, row by row. \<open>clearRect\<close> makes every
  pixel transparent black. \<open>fillRect(gridX, gridY, 1, 1)\<close> composites the fill colour
  over the pixel at \<open>(gridX, gridY)\<close> with the operator source-over; the fill style is
  \<open>rgba(r, g, b, a / 255)\<close>, the colour \<open>(r, g, b)\<close> with the alpha byte \<open>a\<close>.
  \<open>getImageData\<close> gives the pixels back without premultiplication, and a pixel of
  alpha 0 as four zero bytes. Products and quotients by alpha are rounded to the nearest
  byte. For alpha 0 and alpha 255, the two cases the statements below are about, nothing
  depends on that rounding: a transparent fill leaves the pixel as it is and an opaque
  fill replaces it by the fill colour.
\<close>

type_synonym canvas = "rgba list"

definition premultiply :: "byte \<Rightarrow> byte \<Rightarrow> byte" where
  "premultiply c a = of_nat ((unat c * unat a + 127) div 255)"

definition unpremultiply :: "byte \<Rightarrow> byte \<Rightarrow> byte" where
  "unpremultiply p a = of_nat (min 255 ((unat p * 255 + unat a div 2) div unat a))"

definition premultiplied :: "rgba \<Rightarrow> rgba" where
  "premultiplied c =
     (case c of (r, g, b, a) \<Rightarrow> (premultiply r a, premultiply g a, premultiply b a, a))"

definition unpremultiplied :: "rgba \<Rightarrow> rgba" where
  "unpremultiplied p =
     (case p of (r, g, b, a) \<Rightarrow>
        if a = 0 then (0, 0, 0, 0)
        else (unpremultiply r a, unpremultiply g a, unpremultiply b a, a))"

definition clearRect :: "nat \<Rightarrow> nat \<Rightarrow> canvas" where
  "clearRect w h = replicate (w * h) (0, 0, 0, 0)"

definition sourceOver :: "rgba \<Rightarrow> rgba \<Rightarrow> rgba" where
  "sourceOver src dst =
     (case src of (sr, sg, sb, sa) \<Rightarrow> case dst of (dr, dg, db, da) \<Rightarrow>
        (sr + premultiply dr (255 - sa), sg + premultiply dg (255 - sa),
         sb + premultiply db (255 - sa), sa + premultiply da (255 - sa)))"

definition fillRect :: "canvas \<Rightarrow> nat \<Rightarrow> rgba \<Rightarrow> nat \<Rightarrow> nat \<Rightarrow> canvas" where
  "fillRect cv w fillStyle x y =
     (if x < w \<and> y * w + x < length cv
      then cv[y * w + x := sourceOver (premultiplied fillStyle) (cv ! (y * w + x))]
      else cv)"

definition colorBytes :: "rgba \<Rightarrow> byte list" where
  "colorBytes c = (case c of (r, g, b, a) \<Rightarrow> [r, g, b, a])"

definition getImageData :: "canvas \<Rightarrow> byte list" where
  "getImageData cv = concat (map (\<lambda>p. colorBytes (unpremultiplied p)) cv)"

text \<open>Lines 272-286: the canvas is cleared and every sample is drawn as one pixel.\<close>

definition drawSamples :: "PixelSample list \<Rightarrow> nat \<Rightarrow> nat \<Rightarrow> canvas" where
  "drawSamples samples estimatedWidth estimatedHeight =
     fold (\<lambda>gridY. fold (\<lambda>gridX cv.
         let sampleIndex = gridY * estimatedWidth + gridX in
         if sampleIndex < length samples
         then fillRect cv estimatedWidth (sample_color (samples ! sampleIndex)) gridX gridY
         else cv)
       [0 ..< estimatedWidth]) [0 ..< estimatedHeight]
       (clearRect estimatedWidth estimatedHeight)"

text \<open>
  \<open>generatePixelArt\<close> up to the image data that it hands to the histogram (line 289).
  \<open>getImageData\<close> raises \<open>IndexSizeError\<close> on a canvas without pixels. The guard of
  line 220 also returns when \<open>originalImage\<close> is missing; that state is set together with
  the image data and is not kept apart here.
\<close>

datatype art_error = EarlyReturn | IndexSizeError

definition generatePixelArt :: "int \<Rightarrow> ImageData option \<Rightarrow> art_error + ImageData" where
  "generatePixelArt frequency imgDataToProcess =
     (case imgDataToProcess of
        None \<Rightarrow> Inl EarlyReturn
      | Some img \<Rightarrow>
          if frequency \<le> 0 then Inl EarlyReturn
          else
            let imgWidth = width img;
                imgHeight = height img;
                pixelSpacing = real imgHeight / real_of_int frequency;
                estimatedWidth = nat (mathRound (real imgWidth / pixelSpacing));
                estimatedHeight = nat (mathRound (real imgHeight / pixelSpacing));
                samples = gridSamples frequency img
            in if estimatedWidth = 0 \<or> estimatedHeight = 0 then Inl IndexSizeError
               else Inr \<lparr>width = estimatedWidth, height = estimatedHeight,
                         data = getImageData
                                  (drawSamples samples estimatedWidth estimatedHeight)\<rparr>)"

section \<open>Colour histogram (generateColorHistogram, ImageFFTAnalyzer.tsx lines 342-372)\<close>

text \<open>\<open>n.toString(16)\<close> and \<open>s.padStart(len, c)\<close> for a one-character pad.\<close>

definition hexDigit :: "nat \<Rightarrow> char" where
  "hexDigit n = ''0123456789abcdef'' ! n"

fun toString16 :: "nat \<Rightarrow> string" where
  "toString16 n = (if n < 16 then [hexDigit n] else toString16 (n div 16) @ [hexDigit (n mod 16)])"

definition padStart :: "nat \<Rightarrow> char \<Rightarrow> string \<Rightarrow> string" where
  "padStart len c s = replicate (len - length s) c @ s"

definition hex2 :: "byte \<Rightarrow> string" where
  "hex2 v = padStart 2 (CHR ''0'') (toString16 (unat v))"

definition colorKeyOf :: "byte \<Rightarrow> byte \<Rightarrow> byte \<Rightarrow> string" where
  "colorKeyOf r g b = CHR ''#'' # hex2 r @ hex2 g @ hex2 b"

text \<open>
  \<open>colorCounts\<close> is an object used as a dictionary with string keys; \<open>Object.values\<close>
  lists it in insertion order, so it is an association list: a new key goes to the end,
  a known key has its count incremented in place.
\<close>

definition increment :: "string \<Rightarrow> (string \<times> ColorCount) list \<Rightarrow> (string \<times> ColorCount) list" where
  "increment key colorCounts =
     map (\<lambda>(k, e). if k = key then (k, e\<lparr>count := count e + 1\<rparr>) else (k, e)) colorCounts"

text \<open>
  The loop \<open>for (i = 0; i < data.length; i += 4)\<close>. The buffer of an \<open>ImageData\<close> has a
  multiple of four bytes, so the last equation is for the end of the buffer.
\<close>

fun countColors :: "byte list \<Rightarrow> (string \<times> ColorCount) list \<Rightarrow> (string \<times> ColorCount) list" where
  "countColors (r # g # b # a # rest) colorCounts =
     (if a = 0 then countColors rest colorCounts
      else
        let colorKey = colorKeyOf r g b in
        case map_of colorCounts colorKey of
          Some e \<Rightarrow> countColors rest (increment colorKey colorCounts)
        | None \<Rightarrow> countColors rest
                   (colorCounts @ [(colorKey, \<lparr>color = colorKey, count = 1, rgba = (r, g, b, a)\<rparr>)]))"
| "countColors rest colorCounts = colorCounts"

text \<open>
  \<open>Object.values(colorCounts).sort((a, b) => b.count - a.count)\<close>: descending by count;
  \<open>Array.prototype.sort\<close> is stable, as the insertion sort \<open>sort_key\<close> is.
\<close>

definition generateColorHistogram :: "byte list \<Rightarrow> ColorCount list" where
  "generateColorHistogram d =
     sort_key (\<lambda>c. - int (count c)) (map snd (countColors d []))"

section \<open>Background matte (createTransparentVersion, ImageFFTAnalyzer.tsx lines 453-551)\<close>

type_synonym coord = "int \<times> int"

text \<open>\<open>isTargetColor\<close> (lines 483-498); a read outside the buffer makes the comparison false.\<close>

definition tolerance :: int where
  "tolerance = 5"

definition isTargetColor :: "byte list \<Rightarrow> nat \<Rightarrow> rgba \<Rightarrow> int \<Rightarrow> int \<Rightarrow> bool" where
  "isTargetColor d w targetColor x y =
     (let index = (y * int w + x) * 4 in
      case targetColor of (tr, tg, tb, ta) \<Rightarrow>
        (case (rd d index, rd d (index + 1), rd d (index + 2)) of
           (Some r, Some g, Some b) \<Rightarrow>
             \<bar>uint r - uint tr\<bar> \<le> tolerance \<and>
             \<bar>uint g - uint tg\<bar> \<le> tolerance \<and>
             \<bar>uint b - uint tb\<bar> \<le> tolerance
         | _ \<Rightarrow> False))"

text \<open>
  The array \<open>visited\<close> is filled with \<open>false\<close> and only ever tested for truth, so it is a
  function from indices to \<open>bool\<close>. The queue holds coordinate pairs; \<open>push\<close> appends and
  \<open>shift\<close> takes the head.
\<close>

type_synonym fill_state = "coord list \<times> (int \<Rightarrow> bool)"

text \<open>Lines 503-506 and their three copies: an edge pixel of the target colour is queued.\<close>

definition pushEdge :: "byte list \<Rightarrow> nat \<Rightarrow> rgba \<Rightarrow> int \<Rightarrow> int \<Rightarrow> fill_state \<Rightarrow> fill_state" where
  "pushEdge d w targetColor x y s =
     (case s of (queue, visited) \<Rightarrow>
        if isTargetColor d w targetColor x y
        then (queue @ [(x, y)], visited(y * int w + x := True))
        else (queue, visited))"

definition seedEdges :: "byte list \<Rightarrow> nat \<Rightarrow> nat \<Rightarrow> rgba \<Rightarrow> fill_state" where
  "seedEdges d w h targetColor =
     (let s1 = fold (\<lambda>x s. pushEdge d w targetColor (int x) (int h - 1)
                              (pushEdge d w targetColor (int x) 0 s))
                    [0 ..< w] ([], \<lambda>i. False)
      in fold (\<lambda>y s. pushEdge d w targetColor (int w - 1) (int y)
                        (pushEdge d w targetColor 0 (int y) s))
              [0 ..< h] s1)"

definition directions :: "coord list" where
  "directions = [(- 1, 0), (1, 0), (0, - 1), (0, 1)]"

text \<open>Lines 536-550: one direction of the neighbour loop.\<close>

definition visitNeighbour ::
  "byte list \<Rightarrow> nat \<Rightarrow> nat \<Rightarrow> rgba \<Rightarrow> int \<Rightarrow> int \<Rightarrow> coord \<Rightarrow> fill_state \<Rightarrow> fill_state" where
  "visitNeighbour d w h targetColor x y dir s =
     (case s of (queue, visited) \<Rightarrow>
      case dir of (dx, dy) \<Rightarrow>
        let nx = x + dx; ny = y + dy in
        if nx \<ge> 0 \<and> nx < int w \<and> ny \<ge> 0 \<and> ny < int h then
          let newIndex = ny * int w + nx in
          if \<not> visited newIndex \<and> isTargetColor d w targetColor nx ny
          then (queue @ [(nx, ny)], visited(newIndex := True))
          else (queue, visited)
        else (queue, visited))"

text \<open>Lines 527-550: one turn of the \<open>while\<close> loop on a queue that is not empty.\<close>

definition floodStep ::
  "nat \<Rightarrow> nat \<Rightarrow> rgba \<Rightarrow> coord \<Rightarrow> coord list \<Rightarrow> (int \<Rightarrow> bool) \<Rightarrow> byte list
     \<Rightarrow> coord list \<times> (int \<Rightarrow> bool) \<times> byte list" where
  "floodStep w h targetColor p queue visited d =
     (case p of (x, y) \<Rightarrow>
        let index = (y * int w + x) * 4;
            d' = wr d (index + 3) 0
        in case fold (visitNeighbour d' w h targetColor x y) directions (queue, visited) of
             (queue', visited') \<Rightarrow> (queue', visited', d'))"

text \<open>The number of pixels of the image that the fill has not reached.\<close>

definition unvisited :: "nat \<Rightarrow> nat \<Rightarrow> (int \<Rightarrow> bool) \<Rightarrow> nat" where
  "unvisited w h visited = card {i. 0 \<le> i \<and> i < int (w * h) \<and> \<not> visited i}"

function floodFill ::
  "nat \<Rightarrow> nat \<Rightarrow> rgba \<Rightarrow> coord list \<times> (int \<Rightarrow> bool) \<times> byte list \<Rightarrow> byte list" where
  "floodFill w h targetColor ([], visited, d) = d"
| "floodFill w h targetColor (p # queue, visited, d) =
     floodFill w h targetColor (floodStep w h targetColor p queue visited d)"
  by pat_completeness auto

text \<open>
  Lines 469-551: the buffer is copied, the edges are seeded and the queue is emptied.
  Lists are values, so the copy of line 470 is the argument itself.
\<close>

definition createTransparentVersion :: "rgba \<Rightarrow> byte list \<Rightarrow> nat \<Rightarrow> nat \<Rightarrow> byte list" where
  "createTransparentVersion targetColor pixelArtData w h =
     (case seedEdges pixelArtData w h targetColor of
        (queue, visited) \<Rightarrow> floodFill w h targetColor (queue, visited, pixelArtData))"

text \<open>
  The same function on a heap of buffers, to state what it does to its input: a buffer
  is named by its position in the heap, \<open>new Uint8ClampedArray(pixelArtData.data)\<close>
  allocates a buffer at the end of the heap with the bytes of the input, and every
  later read and write of the function goes to the new buffer.
\<close>

type_synonym heap = "byte list list"

definition createTransparentVersionOn :: "heap \<Rightarrow> nat \<Rightarrow> rgba \<Rightarrow> nat \<Rightarrow> nat \<Rightarrow> nat \<times> heap" where
  "createTransparentVersionOn hp pixelArtData targetColor w h =
     (let newImgData = length hp;
          hp1 = hp @ [hp ! pixelArtData]
      in (newImgData,
          hp1[newImgData := createTransparentVersion targetColor (hp1 ! newImgData) w h]))"

text \<open>Lines 377-380: the matte is made for the most frequent colour, if there is one.\<close>

definition backgroundMatte :: "ImageData \<Rightarrow> byte list option" where
  "backgroundMatte img =
     (case generateColorHistogram (data img) of
        [] \<Rightarrow> None
      | c # cs \<Rightarrow> Some (createTransparentVersion (rgba c) (data img) (width img) (height img)))"

section \<open>The vocabulary of the specification\<close>

text \<open>
  The definitions of this section follow the words of the specification, not the code:
  the pixels of a buffer, the pixels that are not fully transparent and their keys, a
  pixel's channels, the colours within the tolerance 5 of a target, the border of an image,
  4-connectedness, and the closure of the border pixels of the target colour under steps to
  4-connected pixels of the target colour.
\<close>

fun pixelsOf :: "byte list \<Rightarrow> rgba list" where
  "pixelsOf (r # g # b # a # rest) = (r, g, b, a) # pixelsOf rest"
| "pixelsOf rest = []"

definition opaqueKey :: "string \<Rightarrow> rgba \<Rightarrow> bool" where
  "opaqueKey k p = (case p of (r, g, b, a) \<Rightarrow> a \<noteq> 0 \<and> colorKeyOf r g b = k)"

definition opaque :: "rgba \<Rightarrow> bool" where
  "opaque p = (case p of (r, g, b, a) \<Rightarrow> a \<noteq> 0)"

definition keyOf :: "rgba \<Rightarrow> string" where
  "keyOf p = (case p of (r, g, b, a) \<Rightarrow> colorKeyOf r g b)"

definition channelAt :: "byte list \<Rightarrow> nat \<Rightarrow> coord \<Rightarrow> nat \<Rightarrow> byte" where
  "channelAt d w p c = (case p of (x, y) \<Rightarrow> d ! (4 * (nat y * w + nat x) + c))"

definition alphaAt :: "byte list \<Rightarrow> nat \<Rightarrow> coord \<Rightarrow> byte" where
  "alphaAt d w p = channelAt d w p 3"

definition inImage :: "nat \<Rightarrow> nat \<Rightarrow> coord \<Rightarrow> bool" where
  "inImage w h p = (case p of (x, y) \<Rightarrow> 0 \<le> x \<and> x < int w \<and> 0 \<le> y \<and> y < int h)"

definition onBorder :: "nat \<Rightarrow> nat \<Rightarrow> coord \<Rightarrow> bool" where
  "onBorder w h p = (case p of (x, y) \<Rightarrow> x = 0 \<or> y = 0 \<or> x = int w - 1 \<or> y = int h - 1)"

definition withinTolerance :: "rgba \<Rightarrow> byte list \<Rightarrow> nat \<Rightarrow> coord \<Rightarrow> bool" where
  "withinTolerance targetColor d w p =
     (case targetColor of (tr, tg, tb, ta) \<Rightarrow>
        \<bar>uint (channelAt d w p 0) - uint tr\<bar> \<le> 5 \<and>
        \<bar>uint (channelAt d w p 1) - uint tg\<bar> \<le> 5 \<and>
        \<bar>uint (channelAt d w p 2) - uint tb\<bar> \<le> 5)"

definition adjacent4 :: "coord \<Rightarrow> coord \<Rightarrow> bool" where
  "adjacent4 p q = (\<bar>fst p - fst q\<bar> + \<bar>snd p - snd q\<bar> = 1)"

inductive borderConnected :: "rgba \<Rightarrow> byte list \<Rightarrow> nat \<Rightarrow> nat \<Rightarrow> coord \<Rightarrow> bool"
  for targetColor :: rgba and d :: "byte list" and w :: nat and h :: nat where
  border: "inImage w h p \<Longrightarrow> onBorder w h p \<Longrightarrow> withinTolerance targetColor d w p
           \<Longrightarrow> borderConnected targetColor d w h p"
| step: "borderConnected targetColor d w h p \<Longrightarrow> adjacent4 p q \<Longrightarrow> inImage w h q
           \<Longrightarrow> withinTolerance targetColor d w q \<Longrightarrow> borderConnected targetColor d w h q"

section \<open>Predicates used in the proofs\<close>

text \<open>The sample that a grid of pitch 1 takes at the pixel with linear index \<open>i\<close>.\<close>

definition sampleAt :: "ImageData \<Rightarrow> nat \<Rightarrow> PixelSample" where
  "sampleAt img i =
     \<lparr>sample_x = int (i mod width img), sample_y = int (i div width img),
      sample_color = colorAt img (int i * 4)\<rparr>"

text \<open>
  What the counting loop maintains: after the pixels \<open>ps\<close>, the dictionary has distinct
  keys, every entry carries its key and the number of opaque pixels of that key, every
  opaque pixel has an entry, and the counts sum to the number of opaque pixels.
\<close>

definition counted :: "rgba list \<Rightarrow> (string \<times> ColorCount) list \<Rightarrow> bool" where
  "counted ps cc \<longleftrightarrow>
     distinct (map fst cc) \<and>
     (\<forall>(k, e) \<in> set cc. color e = k \<and> 0 < count e \<and> count e = length (filter (opaqueKey k) ps)) \<and>
     (\<forall>p \<in> set ps. opaque p \<longrightarrow> keyOf p \<in> fst ` set cc) \<and>
     sum_list (map (\<lambda>(k, e). count e) cc) = length (filter opaque ps)"

text \<open>
  The predicates that the proofs about the flood fill use. A pixel is addressed by its
  linear index \<open>y * width + x\<close>, as the array \<open>visited\<close> is.
\<close>

definition idx :: "nat \<Rightarrow> coord \<Rightarrow> int" where
  "idx w p = snd p * int w + fst p"

definition pix :: "nat \<Rightarrow> coord \<Rightarrow> nat" where
  "pix w p = nat (snd p) * w + nat (fst p)"

text \<open>The buffer \<open>d\<close> has the size and the red, green and blue bytes of \<open>d0\<close>.\<close>

definition sameRGB :: "nat \<Rightarrow> nat \<Rightarrow> byte list \<Rightarrow> byte list \<Rightarrow> bool" where
  "sameRGB w h d0 d \<longleftrightarrow> length d0 = 4 * w * h \<and> length d = length d0 \<and>
     (\<forall>i. i mod 4 \<noteq> 3 \<longrightarrow> d ! i = d0 ! i)"

text \<open>
  What the neighbour loop of the pixel \<open>p\<close> does to the queue and the visited flags:
  nothing is removed, and whatever is added is a pixel of the image of the target colour,
  4-connected to \<open>p\<close>, queued and flagged together.
\<close>

definition expands :: "nat \<Rightarrow> nat \<Rightarrow> rgba \<Rightarrow> byte list \<Rightarrow> coord \<Rightarrow> fill_state \<Rightarrow> fill_state \<Rightarrow> bool" where
  "expands w h tc d0 p s s' \<longleftrightarrow>
     (\<forall>i. snd s i \<longrightarrow> snd s' i) \<and>
     set (fst s) \<subseteq> set (fst s') \<and>
     (\<forall>n \<in> set (fst s'). n \<in> set (fst s) \<or>
        (inImage w h n \<and> withinTolerance tc d0 w n \<and> adjacent4 p n \<and> snd s' (idx w n))) \<and>
     (\<forall>i. snd s' i \<longrightarrow> snd s i \<or>
        (\<exists>n \<in> set (fst s'). idx w n = i \<and> inImage w h n \<and> withinTolerance tc d0 w n \<and>
           adjacent4 p n))"

text \<open>
  The invariant of the \<open>while\<close> loop, for the original buffer \<open>d0\<close>: the queued
  pixels are of the target colour and flagged; flagged pixels are connected to the border;
  a flagged pixel that is no longer queued has alpha 0 and its neighbours of the target
  colour are flagged; a pixel that is not flagged has its original alpha; the border pixels
  of the target colour are flagged.
\<close>

definition floodInv ::
  "nat \<Rightarrow> nat \<Rightarrow> rgba \<Rightarrow> byte list \<Rightarrow> coord list \<times> (int \<Rightarrow> bool) \<times> byte list \<Rightarrow> bool" where
  "floodInv w h tc d0 st \<longleftrightarrow>
     (case st of (q, vis, d) \<Rightarrow>
        sameRGB w h d0 d \<and>
        (\<forall>p \<in> set q. inImage w h p \<and> withinTolerance tc d0 w p \<and> vis (idx w p)) \<and>
        (\<forall>p. inImage w h p \<and> vis (idx w p) \<longrightarrow> borderConnected tc d0 w h p) \<and>
        (\<forall>p. inImage w h p \<and> vis (idx w p) \<and> p \<notin> set q \<longrightarrow>
             alphaAt d w p = 0 \<and>
             (\<forall>n. adjacent4 p n \<and> inImage w h n \<and> withinTolerance tc d0 w n \<longrightarrow> vis (idx w n))) \<and>
        (\<forall>p. inImage w h p \<and> \<not> vis (idx w p) \<longrightarrow> alphaAt d w p = alphaAt d0 w p) \<and>
        (\<forall>p. inImage w h p \<and> onBorder w h p \<and> withinTolerance tc d0 w p \<longrightarrow> vis (idx w p)))"

text \<open>The edge coordinates in the order of the two seeding loops, and their invariant.\<close>

definition edgeCoords :: "nat \<Rightarrow> nat \<Rightarrow> coord list" where
  "edgeCoords w h =
     concat (map (\<lambda>x. [(int x, 0), (int x, int h - 1)]) [0 ..< w]) @
     concat (map (\<lambda>y. [(0, int y), (int w - 1, int y)]) [0 ..< h])"

definition seedInv :: "nat \<Rightarrow> nat \<Rightarrow> rgba \<Rightarrow> byte list \<Rightarrow> fill_state \<Rightarrow> bool" where
  "seedInv w h tc d0 s \<longleftrightarrow>
     (\<forall>p \<in> set (fst s). inImage w h p \<and> onBorder w h p \<and> withinTolerance tc d0 w p \<and>
         snd s (idx w p)) \<and>
     (\<forall>i. snd s i \<longrightarrow> (\<exists>p \<in> set (fst s). idx w p = i))"

text \<open>
  An example: a 3 by 3 image, black but for a white corner and a white centre, and white
  as the target colour.
\<close>

definition white :: rgba where
  "white = (255, 255, 255, 255)"

definition example3x3 :: "byte list" where
  "example3x3 =
     [255, 255, 255, 255,   0, 0, 0, 255,         0, 0, 0, 255,
      0, 0, 0, 255,         255, 255, 255, 255,   0, 0, 0, 255,
      0, 0, 0, 255,         0, 0, 0, 255,         0, 0, 0, 255]"

section \<open>Termination of the flood fill\<close>

lemma inb_index:
  assumes "0 \<le> nx" "nx < int w" "0 \<le> ny" "ny < int h"
  shows "0 \<le> ny * int w + nx \<and> ny * int w + nx < int (w * h)"
proof -
  have "ny + 1 \<le> int h" using assms by simp
  then have "(ny + 1) * int w \<le> int h * int w" by (rule mult_right_mono) simp
  then have "ny * int w + int w \<le> int h * int w" by (simp add: algebra_simps)
  moreover have "0 \<le> ny * int w" using assms by simp
  ultimately show ?thesis using assms by (simp add: algebra_simps)
qed

lemma unvisited_upd:
  assumes "0 \<le> i" "i < int (w * h)" "\<not> v i"
  shows "Suc (unvisited w h (v(i := True))) = unvisited w h v"
proof -
  let ?A = "{j. 0 \<le> j \<and> j < int (w * h) \<and> \<not> v j}"
  have "?A \<subseteq> {0 ..< int (w * h)}" by auto
  then have fin: "finite ?A" by (rule finite_subset) simp
  have eq: "{j. 0 \<le> j \<and> j < int (w * h) \<and> \<not> (v(i := True)) j} = ?A - {i}" by auto
  have "i \<in> ?A" using assms by simp
  from card_Suc_Diff1 [OF fin this] show ?thesis unfolding unvisited_def eq .
qed

lemma visit_measure:
  "visitNeighbour d w h tc x y dir (q, v) = (q', v') \<Longrightarrow>
   2 * unvisited w h v' + length q' \<le> 2 * unvisited w h v + length q"
  using unvisited_upd [of "(y + snd dir) * int w + (x + fst dir)" w h v]
    inb_index [of "x + fst dir" w "y + snd dir" h]
  by (auto simp: visitNeighbour_def Let_def split: prod.splits if_splits)

lemma fold_measure:
  "fold (visitNeighbour d w h tc x y) ds (q, v) = (q', v') \<Longrightarrow>
   2 * unvisited w h v' + length q' \<le> 2 * unvisited w h v + length q"
proof (induction ds arbitrary: q v)
  case Nil
  then show ?case by simp
next
  case (Cons a ds)
  obtain q1 v1 where s1: "visitNeighbour d w h tc x y a (q, v) = (q1, v1)"
    by (cases "visitNeighbour d w h tc x y a (q, v)")
  from Cons.prems s1 have "fold (visitNeighbour d w h tc x y) ds (q1, v1) = (q', v')" by simp
  from Cons.IH [OF this] visit_measure [OF s1] show ?case by simp
qed

termination floodFill
proof (relation "measure (\<lambda>(w, h, tc, (q, v, d)). 2 * unvisited w h v + length q)")
  show "wf (measure (\<lambda>(w, h, tc, (q, v, d)). 2 * unvisited w h v + length q))" by simp
next
  fix w h :: nat and tc :: rgba and p :: coord and queue :: "coord list"
    and visited :: "int \<Rightarrow> bool" and d :: "byte list"
  obtain x y where p: "p = (x, y)" by (cases p)
  obtain q' v' where f: "fold (visitNeighbour (wr d ((y * int w + x) * 4 + 3) 0) w h tc x y)
        directions (queue, visited) = (q', v')"
    by (cases "fold (visitNeighbour (wr d ((y * int w + x) * 4 + 3) 0) w h tc x y)
        directions (queue, visited)")
  have st: "floodStep w h tc p queue visited d = (q', v', wr d ((y * int w + x) * 4 + 3) 0)"
    by (simp only: floodStep_def p prod.case Let_def f)
  show "((w, h, tc, floodStep w h tc p queue visited d), (w, h, tc, p # queue, visited, d))
       \<in> measure (\<lambda>(w, h, tc, (q, v, d)). 2 * unvisited w h v + length q)"
    unfolding st using fold_measure [OF f] by simp
qed

section \<open>Peak detection: the left-most maximum\<close>

lemma peakScan_inv:
  "startIndex \<le> k \<Longrightarrow>
   (case fold (peakStep s) [startIndex..<k] (0, 0) of (m, p) \<Rightarrow>
      (\<forall>j. startIndex \<le> j \<and> j < k \<longrightarrow> s ! j \<le> m) \<and>
      ((p = 0 \<and> m = 0) \<or>
       (startIndex \<le> p \<and> p < k \<and> m = s ! p \<and> 0 < m \<and>
        (\<forall>j. startIndex \<le> j \<and> j < p \<longrightarrow> s ! j < m))))"
proof (induction k)
  case 0
  then show ?case by (simp add: startIndex_def)
next
  case (Suc k)
  show ?case
  proof (cases "startIndex \<le> k")
    case False
    with Suc.prems have "startIndex = Suc k" by simp
    then show ?thesis by simp
  next
    case True
    obtain m p where mp: "fold (peakStep s) [startIndex..<k] (0, 0) = (m, p)"
      by (cases "fold (peakStep s) [startIndex..<k] (0, 0)")
    from Suc.IH [OF True] mp
    have le: "\<forall>j. startIndex \<le> j \<and> j < k \<longrightarrow> s ! j \<le> m"
      and alt: "(p = 0 \<and> m = 0) \<or>
         (startIndex \<le> p \<and> p < k \<and> m = s ! p \<and> 0 < m \<and>
          (\<forall>j. startIndex \<le> j \<and> j < p \<longrightarrow> s ! j < m))"
      by simp_all
    have unfold: "fold (peakStep s) [startIndex..<Suc k] (0, 0) = peakStep s k (m, p)"
      using True mp by simp
    show ?thesis
    proof (cases "s ! k > m")
      case gt: True
      have m0: "0 \<le> m" using alt by auto
      have new: "fold (peakStep s) [startIndex..<Suc k] (0, 0) = (s ! k, k)"
        using unfold gt by (simp add: peakStep_def)
      have lt: "\<forall>j. startIndex \<le> j \<and> j < k \<longrightarrow> s ! j < s ! k"
        using le gt by fastforce
      have pos: "0 < s ! k" using m0 gt by simp
      show ?thesis
        unfolding new using lt pos True by (auto simp: less_Suc_eq)
    next
      case ngt: False
      have new: "fold (peakStep s) [startIndex..<Suc k] (0, 0) = (m, p)"
        using unfold ngt by (simp add: peakStep_def)
      show ?thesis
        unfolding new using le alt ngt by (auto simp: less_Suc_eq)
    qed
  qed
qed

text \<open>
  Claim C5. If some bin at index 5 or beyond is positive, peak detection returns an index
  at or beyond 5 where the spectrum is positive and at least as large as at every index
  from 5 on, and strictly larger than at every earlier index from 5 on (the smallest
  index of the maximum). Otherwise (no bin at index 5 or beyond, or none of them positive)
  it returns the sentinel 0.
\<close>

theorem findPeak_leftmost_maximum:
  "(if \<exists>i. startIndex \<le> i \<and> i < length s \<and> 0 < s ! i
    then startIndex \<le> findPeak s \<and> findPeak s < length s \<and>
         0 < s ! findPeak s \<and>
         (\<forall>j. startIndex \<le> j \<and> j < length s \<longrightarrow> s ! j \<le> s ! findPeak s) \<and>
         (\<forall>j. startIndex \<le> j \<and> j < findPeak s \<longrightarrow> s ! j < s ! findPeak s)
    else findPeak s = 0)"
proof (cases "startIndex \<le> length s")
  case False
  then have "[startIndex..<length s] = []" by (simp only: upt_eq_Nil_conv) simp
  then have fp0: "findPeak s = 0" by (simp only: findPeak_def peakScan_def) simp
  have nex: "\<not> (\<exists>i. startIndex \<le> i \<and> i < length s \<and> 0 < s ! i)"
    using False by auto
  show ?thesis unfolding if_not_P [OF nex] by (rule fp0)
next
  case True
  obtain m p where mp: "peakScan s = (m, p)" by (cases "peakScan s")
  from peakScan_inv [OF True, of s] mp
  have le: "\<forall>j. startIndex \<le> j \<and> j < length s \<longrightarrow> s ! j \<le> m"
    and alt: "(p = 0 \<and> m = 0) \<or>
       (startIndex \<le> p \<and> p < length s \<and> m = s ! p \<and> 0 < m \<and>
        (\<forall>j. startIndex \<le> j \<and> j < p \<longrightarrow> s ! j < m))"
    by (simp_all add: peakScan_def)
  have fp: "findPeak s = p" by (simp add: findPeak_def mp)
  show ?thesis
  proof (cases "\<exists>i. startIndex \<le> i \<and> i < length s \<and> 0 < s ! i")
    case ex: True
    then obtain i where "startIndex \<le> i" "i < length s" "0 < s ! i" by blast
    with le have "0 < m" by fastforce
    with alt have "startIndex \<le> p \<and> p < length s \<and> m = s ! p \<and> 0 < m \<and>
        (\<forall>j. startIndex \<le> j \<and> j < p \<longrightarrow> s ! j < m)" by auto
    with le ex fp show ?thesis by auto
  next
    case nex: False
    with alt have "p = 0" by auto
    with fp have fp0: "findPeak s = 0" by simp
    show ?thesis unfolding if_not_P [OF nex] by (rule fp0)
  qed
qed

text \<open>
  The two cases on concrete spectra: the maximum 3 is reached at indices 6 and 8 and the
  answer is 6; a spectrum without a positive bin from index 5 on gives 0.
\<close>

theorem findPeak_leftmost_maximum_witness:
  "(\<exists>i. startIndex \<le> i \<and> i < length [9, 9, 9, 9, 9, 1, 3, 2, 3 :: real] \<and>
        0 < [9, 9, 9, 9, 9, 1, 3, 2, 3 :: real] ! i) \<and>
   findPeak [9, 9, 9, 9, 9, 1, 3, 2, 3] = 6 \<and>
   \<not> (\<exists>i. startIndex \<le> i \<and> i < length [1, 1, 1, 1, 1, 0, - 1 :: real] \<and>
        0 < [1, 1, 1, 1, 1, 0, - 1 :: real] ! i) \<and>
   findPeak [1, 1, 1, 1, 1, 0, - 1] = 0"
proof -
  have ex: "\<exists>i. startIndex \<le> i \<and> i < length [9, 9, 9, 9, 9, 1, 3, 2, 3 :: real] \<and>
        0 < [9, 9, 9, 9, 9, 1, 3, 2, 3 :: real] ! i"
    by (rule exI [of _ 6]) (simp add: startIndex_def)
  have nex: "\<not> (\<exists>i. startIndex \<le> i \<and> i < length [1, 1, 1, 1, 1, 0, - 1 :: real] \<and>
        0 < [1, 1, 1, 1, 1, 0, - 1 :: real] ! i)"
    by (auto simp: startIndex_def less_Suc_eq numeral_nat nth_Cons')
  have six: "findPeak [9, 9, 9, 9, 9, 1, 3, 2, 3] = 6"
    by (simp add: findPeak_def peakScan_def peakStep_def startIndex_def upt_rec)
  show ?thesis
    using findPeak_leftmost_maximum [of "[9, 9, 9, 9, 9, 1, 3, 2, 3]"]
      findPeak_leftmost_maximum [of "[1, 1, 1, 1, 1, 0, - 1]"] ex nex six
    by simp
qed

section \<open>Rounding to the nearest double\<close>

lemma roundTiesToEven_error: "\<bar>of_int (roundTiesToEven y) - y\<bar> \<le> 1 / 2"
proof -
  have "of_int \<lfloor>y\<rfloor> \<le> y" "y < of_int \<lfloor>y\<rfloor> + 1" by linarith+
  then show ?thesis by (auto simp: roundTiesToEven_def Let_def)
qed

lemma roundTiesToEven_nonneg: "0 \<le> y \<Longrightarrow> 0 \<le> roundTiesToEven y"
  by (auto simp: roundTiesToEven_def Let_def)


lemma fl_zero: "fl 0 = 0"
  by (simp add: fl_def)

lemma fl_nonneg: "0 \<le> x \<Longrightarrow> 0 \<le> fl x"
  by (simp add: fl_def roundTiesToEven_nonneg)


lemma fl_error: "\<bar>fl x - x\<bar> \<le> unitRoundoff * \<bar>x\<bar> + smallestError"
proof (cases "x = 0")
  case True
  then show ?thesis by (simp add: fl_def unitRoundoff_def smallestError_def)
next
  case False
  define e where "e = ulpExponent x"
  define s :: real where "s = 2 powr of_int e"
  define y where "y = x / s"
  have s: "0 < s" by (simp add: s_def)
  have x: "x = y * s" using s by (simp add: y_def)
  have flx: "fl x = of_int (roundTiesToEven y) * s"
    using False by (simp add: fl_def e_def s_def y_def)
  have "fl x - x = (of_int (roundTiesToEven y) - y) * s"
    by (simp add: flx x [symmetric] algebra_simps) (simp add: x)
  then have "\<bar>fl x - x\<bar> = \<bar>of_int (roundTiesToEven y) - y\<bar> * s"
    using s by (simp add: abs_mult)
  also have "\<dots> \<le> (1 / 2) * s"
    using roundTiesToEven_error [of y] s by (intro mult_right_mono) simp_all
  finally have half: "\<bar>fl x - x\<bar> \<le> s / 2" by simp
  have "s / 2 \<le> unitRoundoff * \<bar>x\<bar> + smallestError"
  proof (cases "\<lfloor>log 2 \<bar>x\<bar>\<rfloor> - 52 \<ge> - 1074")
    case True
    then have e: "e = \<lfloor>log 2 \<bar>x\<bar>\<rfloor> - 52" by (simp add: e_def ulpExponent_def)
    have "of_int e \<le> log 2 \<bar>x\<bar> - 52" unfolding e by simp
    then have "s \<le> 2 powr (log 2 \<bar>x\<bar> - 52)" unfolding s_def by simp
    also have "\<dots> = \<bar>x\<bar> / 2 ^ 52" using False by (simp add: powr_diff)
    finally have "s / 2 \<le> \<bar>x\<bar> / 2 ^ 53" by simp
    then show ?thesis by (simp add: unitRoundoff_def smallestError_def)
  next
    case False
    then have e: "e = - 1074" by (simp add: e_def ulpExponent_def)
    have "s = 1 / 2 ^ 1074" unfolding s_def e by (simp add: powr_minus_divide)
    then have "s / 2 = smallestError" by (simp add: smallestError_def)
    moreover have "0 \<le> unitRoundoff * \<bar>x\<bar>" by (simp add: unitRoundoff_def)
    ultimately show ?thesis by linarith
  qed
  with half show ?thesis by linarith
qed


section \<open>Gaussian smoothing of a constant array\<close>


lemma fl_upper: "fl x \<le> x + (unitRoundoff * \<bar>x\<bar> + smallestError)"
  using fl_error [of x] by linarith


subsection \<open>Rounded sums\<close>












subsection \<open>The kernel of sigma 2 and size 7\<close>


lemma smoothing_length: "length (applyGaussianSmoothing d sigma k) = length d"
  by (simp add: applyGaussianSmoothing_def Let_def)


lemma upto7: "[- 3 .. 3] = [- 3, - 2, - 1, 0, 1, 2, 3 :: int]"
  by (simp add: upto_rec1)











subsection \<open>The smoother on a constant array\<close>








section \<open>Line selection: when the loop returns\<close>


text \<open>
  The column that the code computes from a double \<open>r\<close> below 1, the largest of which is
  \<open>1 - 1 / 2 ^ 53\<close>, and a source value for every column.
\<close>

lemma rounded_draw_in_range:
  assumes "0 \<le> r" and "r \<le> 1 - unitRoundoff" and "1 \<le> w"
  shows "0 \<le> \<lfloor>fl (r * real w)\<rfloor> \<and> \<lfloor>fl (r * real w)\<rfloor> < int w"
proof -
  let ?x = "r * real w"
  have x0: "0 \<le> ?x" using assms by simp
  then have "0 \<le> fl ?x" by (rule fl_nonneg)
  then have lo: "0 \<le> \<lfloor>fl ?x\<rfloor>" by simp
  have "?x \<le> (1 - unitRoundoff) * real w" using assms by (intro mult_right_mono) simp_all
  then have x1: "?x \<le> (1 - 1 / 2 ^ 53) * real w" by (simp add: unitRoundoff_def)
  have "fl ?x \<le> ?x + (unitRoundoff * \<bar>?x\<bar> + smallestError)" by (rule fl_upper)
  then have "fl ?x \<le> (1 + 1 / 2 ^ 53) * ?x + 1 / 2 ^ 1075"
    using x0 by (simp add: unitRoundoff_def smallestError_def algebra_simps)
  moreover have "(1 + 1 / 2 ^ 53) * ?x \<le> (1 + 1 / 2 ^ 53) * ((1 - 1 / 2 ^ 53) * real w)"
    using x1 by (intro mult_left_mono) simp_all
  moreover have "(1 + 1 / 2 ^ 53) * ((1 - 1 / 2 ^ 53) * real w) = real w - real w / 2 ^ 106"
    by (simp add: algebra_simps)
  moreover have "(1 :: real) / 2 ^ 1075 < 1 / 2 ^ 106" by simp
  moreover have "(1 :: real) / 2 ^ 106 \<le> real w / 2 ^ 106"
    using assms(3) by (intro divide_right_mono) simp_all
  ultimately have "fl ?x < real w" by linarith
  then have "fl ?x < real_of_int (int w)" by simp
  then have "\<lfloor>fl ?x\<rfloor> < int w" by (simp only: floor_less_iff)
  with lo show ?thesis by simp
qed

lemma column_realised:
  assumes "1 \<le> w" and "0 \<le> c" and "c < int w"
  shows "0 \<le> (real_of_int c + 1 / 2) / real w \<and> (real_of_int c + 1 / 2) / real w < 1 \<and>
         \<lfloor>(real_of_int c + 1 / 2) / real w * real w\<rfloor> = c"
proof -
  have w: "0 < real w" using assms(1) by simp
  have "real_of_int c + 1 \<le> real w" using assms(3) by linarith
  then have "real_of_int c + 1 / 2 < real w" by simp
  then have lt: "(real_of_int c + 1 / 2) / real w < 1" using w by simp
  have ge: "0 \<le> (real_of_int c + 1 / 2) / real w" using assms(2) w by simp
  have "(real_of_int c + 1 / 2) / real w * real w = real_of_int c + 1 / 2" using w by simp
  moreover have "\<lfloor>real_of_int c + 1 / 2\<rfloor> = c" by (rule floor_unique) simp_all
  ultimately show ?thesis using lt ge by simp
qed


lemma selectLines_exit:
  assumes "\<not> (length lines < 30 \<and> length lines < w)"
  shows "selectLines random w k lines used = Some lines"
  by (subst selectLines.simps) (simp only: assms if_False)

lemma selectLines_new:
  assumes "length lines < 30 \<and> length lines < w" "\<lfloor>random k * real w\<rfloor> \<notin> used"
  shows "selectLines random w k lines used =
         selectLines random w (Suc k) (lines @ [\<lfloor>random k * real w\<rfloor>])
           (insert \<lfloor>random k * real w\<rfloor> used)"
  by (subst selectLines.simps) (simp add: assms Let_def)






section \<open>The analysis: spectrum length, small images, the sentinel\<close>

lemma lineData_length: "length (lineData img x) = height img"
  by (simp add: lineData_def)

lemma derivatives_length: "length (derivatives ld) = length ld - 1"
  by (simp add: derivatives_def)

lemma fft_length: "length (fft xs) = length xs"
  by (simp add: fft_def)

lemma magnitudes_length: "length (magnitudes (analyseLine img x)) = height img - 1"
  by (simp add: analyseLine_def Let_def fft_length derivatives_length lineData_length)

lemma allMagnitudes_lengths:
  "map length (allMagnitudes img lines) = replicate (length lines) (height img - 1)"
  by (induction lines) (simp_all add: allMagnitudes_def magnitudes_length)

lemma maxLength_lines:
  assumes "lines \<noteq> []"
  shows "Max (set (map length (allMagnitudes img lines))) = height img - 1"
proof -
  have "set (replicate (length lines) (height img - 1)) = {height img - 1}"
    using assms by simp
  then show ?thesis by (simp only: allMagnitudes_lengths) simp
qed

lemma combineMagnitudes_Inr:
  assumes "combineMagnitudes ms h = Inr c"
  shows "ms \<noteq> [] \<and> Max (set (map length ms)) \<noteq> 0 \<and>
         length c = min (max 1 (min (Max (set (map length ms))) (h div 2))) 10000"
  using assms by (auto simp: combineMagnitudes_def Let_def split: if_splits)

lemma combineMagnitudes_lines:
  "(\<exists>c. combineMagnitudes (allMagnitudes img lines) (height img) = Inr c) \<longleftrightarrow>
   lines \<noteq> [] \<and> 2 \<le> height img"
proof (cases "lines = []")
  case True
  then show ?thesis by (simp add: combineMagnitudes_def allMagnitudes_def)
next
  case False
  then have ne: "allMagnitudes img lines \<noteq> []" by (simp add: allMagnitudes_def)
  show ?thesis
    using False ne maxLength_lines [OF False, of img]
    by (auto simp: combineMagnitudes_def Let_def)
qed

lemma performFFT_Some:
  assumes "performFFT random st (Some img) = Some st'"
  shows "\<exists>lines. selectLines random (width img) 0 [] {} = Some lines \<and>
           st' = analyseLines (st\<lparr>processing := True\<rparr>) img lines"
  using assms by (auto simp: performFFT_def split: option.splits)

lemma generatePixelSamples_frame:
  "selectedLines (generatePixelSamples st f p) = selectedLines st \<and>
   combinedFFT (generatePixelSamples st f p) = combinedFFT st \<and>
   smoothedFFT (generatePixelSamples st f p) = smoothedFFT st \<and>
   dominantFrequency (generatePixelSamples st f p) = dominantFrequency st"
  by (simp add: generatePixelSamples_def Let_def split: option.splits)

lemma analyseLines_selected: "selectedLines (analyseLines st img lines) = lines"
  by (simp add: analyseLines_def Let_def generatePixelSamples_frame split: sum.splits)

lemma analyseLines_combined:
  "combineMagnitudes (allMagnitudes img lines) (height img) = Inr c \<Longrightarrow>
   combinedFFT (analyseLines st img lines) = c \<and>
   smoothedFFT (analyseLines st img lines) = applyGaussianSmoothing c 2 7 \<and>
   dominantFrequency (analyseLines st img lines) = Some (findPeak (applyGaussianSmoothing c 2 7))"
  by (simp add: analyseLines_def allMagnitudes_def Let_def generatePixelSamples_frame)

lemma analyseLines_failed:
  "combineMagnitudes (allMagnitudes img lines) (height img) = Inl e \<Longrightarrow>
   analyseLines st img lines = st\<lparr>selectedLines := lines, processing := False\<rparr>"
  by (simp add: analyseLines_def allMagnitudes_def Let_def)

lemma alwaysZero_width1: "selectLines alwaysZero (Suc 0) 0 [] {} = Some [0]"
proof -
  have "selectLines alwaysZero 1 0 [] {} =
        selectLines alwaysZero 1 (Suc 0) ([] @ [\<lfloor>alwaysZero 0 * real (1::nat)\<rfloor>])
          (insert \<lfloor>alwaysZero 0 * real (1::nat)\<rfloor> {})"
    by (rule selectLines_new) simp_all
  also have "\<dots> = Some [0]"
    by (simp add: selectLines_exit alwaysZero_def)
  finally show ?thesis by simp
qed

text \<open>
  Claim C4. Whenever \<open>performFFT\<close> returns and the aggregation of the magnitudes of the
  selected lines succeeds, the combined spectrum it stores is the aggregated one; its length
  is max(1, min(maxLength, floor(height / 2))) clamped to 10000, where maxLength is the
  largest length of a magnitude array, and it lies between 1 and
  min(maxLength, floor(height / 2)).
\<close>

theorem combined_spectrum_length:
  assumes "performFFT random st (Some img) = Some st'"
    and "combineMagnitudes (allMagnitudes img (selectedLines st')) (height img) = Inr c"
  shows "combinedFFT st' = c \<and>
         length c = min (max 1 (min (Max (set (map length (allMagnitudes img (selectedLines st')))))
                                    (height img div 2))) 10000 \<and>
         1 \<le> length c \<and>
         length c \<le> min (Max (set (map length (allMagnitudes img (selectedLines st')))))
                         (height img div 2)"
proof -
  from performFFT_Some [OF assms(1)] obtain lines
    where st': "st' = analyseLines (st\<lparr>processing := True\<rparr>) img lines" by blast
  have sel: "selectedLines st' = lines" by (simp add: st' analyseLines_selected)
  from assms(2) have c: "combineMagnitudes (allMagnitudes img lines) (height img) = Inr c"
    by (simp only: sel)
  then have "\<exists>c. combineMagnitudes (allMagnitudes img lines) (height img) = Inr c" by blast
  then have ok: "lines \<noteq> [] \<and> 2 \<le> height img"
    using combineMagnitudes_lines [of img lines] by blast
  have mx: "Max (set (map length (allMagnitudes img lines))) = height img - 1"
    using maxLength_lines [of lines img] ok by blast
  from combineMagnitudes_Inr [OF c]
  have len: "length c = min (max 1 (min (height img - 1) (height img div 2))) 10000"
    by (simp only: mx)
  have "combinedFFT st' = c" using analyseLines_combined [OF c] by (simp add: st')
  then show ?thesis using len ok by (simp only: sel mx) auto
qed

text \<open>An image one pixel wide and two high: one line, one magnitude, a spectrum of length 1.\<close>

theorem combined_spectrum_length_witness:
  "\<exists>st' c. performFFT alwaysZero initialState
              (Some \<lparr>width = 1, height = 2, data = [0, 0, 0, 255, 255, 255, 255, 255]\<rparr>) = Some st' \<and>
     combineMagnitudes
       (allMagnitudes \<lparr>width = 1, height = 2, data = [0, 0, 0, 255, 255, 255, 255, 255]\<rparr>
          (selectedLines st')) 2 = Inr c \<and>
     combinedFFT st' = c \<and> length c = 1"
proof -
  let ?img = "\<lparr>width = 1, height = 2, data = [0, 0, 0, 255, 255, 255, 255, 255 :: byte]\<rparr>"
  define st' where "st' = analyseLines (initialState\<lparr>processing := True\<rparr>) ?img [0]"
  have run: "performFFT alwaysZero initialState (Some ?img) = Some st'"
    by (simp add: performFFT_def alwaysZero_width1 st'_def)
  have lines: "selectedLines st' = [0]" by (simp add: st'_def analyseLines_selected)
  have "\<exists>c. combineMagnitudes (allMagnitudes ?img [0]) (height ?img) = Inr c"
    by (simp only: combineMagnitudes_lines) simp
  then obtain c where c: "combineMagnitudes (allMagnitudes ?img (selectedLines st')) (height ?img) = Inr c"
    unfolding lines by blast
  from combined_spectrum_length [OF run c] have "combinedFFT st' = c \<and> length c = 1"
    by (simp add: lines maxLength_lines)
  with run c show ?thesis by auto
qed


lemma selectLines_length:
  assumes "selectLines random w k lines used = Some ls"
  shows "length lines \<le> min 30 w \<longrightarrow> length ls = min 30 w"
proof (rule selectLines.raw_induct [where P = "\<lambda>random w k lines used ls.
         length lines \<le> min 30 w \<longrightarrow> length ls = min 30 w", OF _ assms])
  fix sel :: "(nat \<Rightarrow> real) \<Rightarrow> nat \<Rightarrow> nat \<Rightarrow> int list \<Rightarrow> int set \<Rightarrow> int list option"
    and random w k lines used ls
  assume IH: "\<And>random w k lines used ls. sel random w k lines used = Some ls \<Longrightarrow>
         length lines \<le> min 30 w \<longrightarrow> length ls = min 30 w"
  assume body: "(if length lines < 30 \<and> length lines < w
      then let x = \<lfloor>random k * real w\<rfloor>
           in if x \<notin> used
              then sel random w (Suc k) (lines @ [x]) (insert x used)
              else sel random w (Suc k) lines used
      else Some lines) = Some ls"
  show "length lines \<le> min 30 w \<longrightarrow> length ls = min 30 w"
  proof
    assume len: "length lines \<le> min 30 w"
    show "length ls = min 30 w"
    proof (cases "length lines < 30 \<and> length lines < w")
      case False
      with body have "ls = lines" by simp
      with len False show ?thesis by auto
    next
      case cond: True
      show ?thesis
      proof (cases "\<lfloor>random k * real w\<rfloor> \<in> used")
        case True
        with body cond have "sel random w (Suc k) lines used = Some ls" by (simp add: Let_def)
        from IH [OF this] len show ?thesis by blast
      next
        case False
        with body cond
        have call: "sel random w (Suc k) (lines @ [\<lfloor>random k * real w\<rfloor>])
                      (insert \<lfloor>random k * real w\<rfloor> used) = Some ls"
          by (simp add: Let_def)
        have "length (lines @ [\<lfloor>random k * real w\<rfloor>]) \<le> min 30 w" using cond by simp
        with IH [OF call] show ?thesis by blast
      qed
    qed
  qed
qed

lemma performFFT_lines_nonempty:
  assumes "performFFT random st (Some img) = Some st'" "1 \<le> width img"
  shows "\<exists>lines. lines \<noteq> [] \<and> st' = analyseLines (st\<lparr>processing := True\<rparr>) img lines"
proof -
  from performFFT_Some [OF assms(1)] obtain lines
    where sel: "selectLines random (width img) 0 [] {} = Some lines"
      and st': "st' = analyseLines (st\<lparr>processing := True\<rparr>) img lines" by blast
  from selectLines_length [OF sel] have "length lines = min 30 (width img)" by simp
  with assms(2) have "lines \<noteq> []" by auto
  with st' show ?thesis by blast
qed

lemma findPeak_short: "length s \<le> 5 \<Longrightarrow> findPeak s = 0"
  by (simp add: findPeak_def peakScan_def startIndex_def)

lemma small_image_peak:
  assumes "lines \<noteq> []" "2 \<le> height img" "height img div 2 \<le> 5"
  shows "dominantFrequency (analyseLines st img lines) = Some 0"
proof -
  from combineMagnitudes_lines [of img lines] assms
  obtain c where c: "combineMagnitudes (allMagnitudes img lines) (height img) = Inr c" by blast
  have mx: "Max (set (map length (allMagnitudes img lines))) = height img - 1"
    using maxLength_lines [of lines img] assms(1) by blast
  from combineMagnitudes_Inr [OF c]
  have "length c = min (max 1 (min (height img - 1) (height img div 2))) 10000"
    by (simp only: mx)
  with assms have "length c \<le> 5" by auto
  then have "findPeak (applyGaussianSmoothing c 2 7) = 0"
    by (intro findPeak_short) (simp add: smoothing_length)
  with analyseLines_combined [OF c, of st] show ?thesis by simp
qed

lemma short_image_fails:
  assumes "height img < 2"
  shows "dominantFrequency (analyseLines st img lines) = dominantFrequency st"
proof -
  from combineMagnitudes_lines [of img lines] assms
  have "\<not> (\<exists>c. combineMagnitudes (allMagnitudes img lines) (height img) = Inr c)" by simp
  then obtain e where "combineMagnitudes (allMagnitudes img lines) (height img) = Inl e"
    by (cases "combineMagnitudes (allMagnitudes img lines) (height img)") auto
  from analyseLines_failed [OF this] show ?thesis by simp
qed

text \<open>
  Claim C10, as amended. For an image at least one pixel wide with floor(height / 2) at most
  5, whenever \<open>performFFT\<close> returns: if the height is at least 2, the dominant frequency
  is the sentinel 0; if the height is 1, the aggregation stops at its guard on the magnitude
  lengths and the dominant frequency is left as it was.
\<close>

theorem small_image_dominant_frequency:
  assumes "1 \<le> width img" and "height img div 2 \<le> 5"
    and "performFFT random st (Some img) = Some st'"
  shows "dominantFrequency st' = (if 2 \<le> height img then Some 0 else dominantFrequency st)"
proof -
  from performFFT_lines_nonempty [OF assms(3,1)] obtain lines
    where ne: "lines \<noteq> []" and st': "st' = analyseLines (st\<lparr>processing := True\<rparr>) img lines"
    by blast
  show ?thesis
  proof (cases "2 \<le> height img")
    case True
    from small_image_peak [OF ne True assms(2)] True show ?thesis by (simp add: st')
  next
    case False
    then have "height img < 2" by simp
    from short_image_fails [OF this] False show ?thesis by (simp add: st')
  qed
qed

text \<open>The image one pixel wide and two high has the dominant frequency 0.\<close>

theorem small_image_dominant_frequency_witness:
  "\<exists>st'. performFFT alwaysZero initialState
            (Some \<lparr>width = 1, height = 2, data = [0, 0, 0, 255, 255, 255, 255, 255]\<rparr>) = Some st' \<and>
         dominantFrequency st' = Some 0"
proof -
  let ?img = "\<lparr>width = 1, height = 2, data = [0, 0, 0, 255, 255, 255, 255, 255 :: byte]\<rparr>"
  have run: "performFFT alwaysZero initialState (Some ?img) =
             Some (analyseLines (initialState\<lparr>processing := True\<rparr>) ?img [0])"
    by (simp add: performFFT_def alwaysZero_width1)
  from small_image_dominant_frequency [OF _ _ run] run show ?thesis by simp
qed

text \<open>
  Claim C10 as stated fails for a height of 1: from the initial state, the analysis of a
  one-pixel image leaves the dominant frequency unset (\<open>null\<close>), not 0.
\<close>

theorem one_row_image_counterexample:
  "map_option dominantFrequency
     (performFFT alwaysZero initialState (Some \<lparr>width = 1, height = 1, data = [0, 0, 0, 255]\<rparr>))
   = Some None"
proof -
  let ?img = "\<lparr>width = 1, height = 1, data = [0, 0, 0, 255 :: byte]\<rparr>"
  have run: "performFFT alwaysZero initialState (Some ?img) =
             Some (analyseLines (initialState\<lparr>processing := True\<rparr>) ?img [0])"
    by (simp add: performFFT_def alwaysZero_width1)
  have "dominantFrequency (analyseLines (initialState\<lparr>processing := True\<rparr>) ?img [0]) =
        dominantFrequency (initialState\<lparr>processing := True\<rparr>)"
    by (rule short_image_fails) simp
  also have "\<dots> = None" by (simp add: initialState_def)
  finally show ?thesis by (simp only: run option.map)
qed

text \<open>
  Claim C9. \<open>generatePixelSamples\<close> with a frequency of 0 or less returns without touching
  the state, so it produces no samples; and whenever \<open>performFFT\<close> returns with the
  sentinel 0 as the dominant frequency, the pixel samples are those from before the call:
  the grid sampler was not run.
\<close>

theorem no_peak_no_samples:
  "(frequency \<le> 0 \<longrightarrow> generatePixelSamples st frequency imgDataParam = st) \<and>
   (performFFT random st imgDataParam = Some st' \<and> dominantFrequency st' = Some 0
      \<longrightarrow> pixelSamples st' = pixelSamples st)"
proof (intro conjI impI)
  assume "frequency \<le> 0"
  then show "generatePixelSamples st frequency imgDataParam = st"
    by (simp add: generatePixelSamples_def Let_def split: option.splits)
next
  assume a: "performFFT random st imgDataParam = Some st' \<and> dominantFrequency st' = Some 0"
  show "pixelSamples st' = pixelSamples st"
  proof (cases "case imgDataParam of Some i \<Rightarrow> Some i | None \<Rightarrow> imageData st")
    case None
    with a have "st' = st" by (simp add: performFFT_def)
    then show ?thesis by simp
  next
    case (Some img)
    with a obtain lines where st': "st' = analyseLines (st\<lparr>processing := True\<rparr>) img lines"
      by (auto simp: performFFT_def split: option.splits)
    show ?thesis
    proof (cases "combineMagnitudes (allMagnitudes img lines) (height img)")
      case (Inl e)
      from analyseLines_failed [OF this] show ?thesis by (simp add: st')
    next
      case (Inr c)
      from analyseLines_combined [OF Inr, of "st\<lparr>processing := True\<rparr>"] a
      have "findPeak (applyGaussianSmoothing c 2 7) = 0" by (simp add: st')
      then show ?thesis using Inr
        by (simp add: st' analyseLines_def allMagnitudes_def Let_def)
    qed
  qed
qed

text \<open>Frequency 0, and the image one pixel wide and two high, whose peak is 0.\<close>

theorem no_peak_no_samples_witness:
  "generatePixelSamples initialState 0
     (Some \<lparr>width = 1, height = 2, data = [0, 0, 0, 255, 255, 255, 255, 255]\<rparr>) = initialState \<and>
   (\<exists>st'. performFFT alwaysZero initialState
            (Some \<lparr>width = 1, height = 2, data = [0, 0, 0, 255, 255, 255, 255, 255]\<rparr>) = Some st' \<and>
          dominantFrequency st' = Some 0 \<and> pixelSamples st' = [])"
proof -
  let ?img = "\<lparr>width = 1, height = 2, data = [0, 0, 0, 255, 255, 255, 255, 255 :: byte]\<rparr>"
  let ?st = "analyseLines (initialState\<lparr>processing := True\<rparr>) ?img [0]"
  have run: "performFFT alwaysZero initialState (Some ?img) = Some ?st"
    by (simp add: performFFT_def alwaysZero_width1)
  have peak: "dominantFrequency ?st = Some 0"
    by (rule small_image_peak) simp_all
  from no_peak_no_samples [of 0 initialState "Some ?img" alwaysZero ?st] run peak
  have "generatePixelSamples initialState 0 (Some ?img) = initialState \<and>
        pixelSamples ?st = pixelSamples initialState" by simp
  then show ?thesis using run peak by (simp add: initialState_def)
qed

section \<open>Reconstruction at pitch 1\<close>

subsection \<open>The grid of pitch 1\<close>

lemma grid_flatten:
  "concat (map (\<lambda>gy. map (\<lambda>gx. g (gy * w + gx)) [0 ..< w]) [0 ..< h]) = map g [0 ..< h * w]"
proof (induction h)
  case 0
  show ?case by simp
next
  case (Suc h)
  have row: "map (\<lambda>gx. g (h * w + gx)) [0 ..< w] = map g [h * w ..< h * w + w]"
    by (rule nth_equalityI) simp_all
  have "[0 ..< h * w + w] = [0 ..< h * w] @ [h * w ..< h * w + w]"
    by (rule upt_add_eq_append) simp
  moreover have "Suc h * w = h * w + w" by simp
  ultimately have "[0 ..< Suc h * w] = [0 ..< h * w] @ [h * w ..< h * w + w]"
    by (simp only:)
  then show ?case using Suc row by simp
qed

lemma grid_cong:
  assumes "\<And>gx gy. gx < w \<Longrightarrow> gy < h \<Longrightarrow> f gy gx = g gy gx"
  shows "concat (map (\<lambda>gy. concat (map (f gy) [0 ..< w])) [0 ..< h]) =
         concat (map (\<lambda>gy. concat (map (g gy) [0 ..< w])) [0 ..< h])"
proof -
  have "map (\<lambda>gy. concat (map (f gy) [0 ..< w])) [0 ..< h] =
        map (\<lambda>gy. concat (map (g gy) [0 ..< w])) [0 ..< h]"
  proof (rule map_cong [OF refl])
    fix gy assume "gy \<in> set [0 ..< h]"
    then have gy: "gy < h" by simp
    have "map (f gy) [0 ..< w] = map (g gy) [0 ..< w]"
      by (rule map_cong [OF refl]) (simp add: assms gy)
    then show "concat (map (f gy) [0 ..< w]) = concat (map (g gy) [0 ..< w])"
      by (rule arg_cong [where f = concat])
  qed
  then show ?thesis by (rule arg_cong [where f = concat])
qed


lemma mathRound_nat: "mathRound (real n) = int n"
  unfolding mathRound_def by (rule floor_unique) simp_all

lemma center_unit: "\<lfloor>(real g + 1 / 2) * 1\<rfloor> = int g"
  by (rule floor_unique) simp_all

lemma gridSamples_unit:
  assumes "1 \<le> height img"
  shows "gridSamples (int (height img)) img = map (sampleAt img) [0 ..< height img * width img]"
proof -
  let ?w = "width img" and ?h = "height img"
  have ps: "real ?h / real_of_int (int ?h) = 1" using assms by simp
  have cell: "(if \<lfloor>(real gx + 1 / 2) * 1\<rfloor> < int ?w \<and> \<lfloor>(real gy + 1 / 2) * 1\<rfloor> < int ?h
             then [\<lparr>sample_x = \<lfloor>(real gx + 1 / 2) * 1\<rfloor>, sample_y = \<lfloor>(real gy + 1 / 2) * 1\<rfloor>,
                    sample_color = colorAt img
                      ((\<lfloor>(real gy + 1 / 2) * 1\<rfloor> * int ?w + \<lfloor>(real gx + 1 / 2) * 1\<rfloor>) * 4)\<rparr>]
             else []) = [sampleAt img (gy * ?w + gx)]"
    if "gx < ?w" "gy < ?h" for gx gy
  proof -
    have idx: "int gy * int ?w + int gx = int (gy * ?w + gx)" by simp
    have md: "(gy * ?w + gx) mod ?w = gx" "(gy * ?w + gx) div ?w = gy" using that by simp_all
    show ?thesis using that
      by (simp only: center_unit idx sampleAt_def md) simp
  qed
  have "gridSamples (int ?h) img =
        concat (map (\<lambda>gy. concat (map (\<lambda>gx. [sampleAt img (gy * ?w + gx)]) [0 ..< ?w])) [0 ..< ?h])"
    unfolding gridSamples_def Let_def ps div_by_1 mathRound_nat nat_int
    by (rule grid_cong) (rule cell)
  also have "\<dots> = concat (map (\<lambda>gy. map (\<lambda>gx. sampleAt img (gy * ?w + gx)) [0 ..< ?w]) [0 ..< ?h])"
    by (simp add: concat_map_singleton)
  also have "\<dots> = map (sampleAt img) [0 ..< ?h * ?w]" by (rule grid_flatten)
  finally show ?thesis .
qed


subsection \<open>The canvas\<close>



lemma premultiply_zero: "premultiply 0 a = 0"
  by (simp add: premultiply_def)

lemma sourceOver_clear: "sourceOver src (0, 0, 0, 0) = src"
  by (simp add: sourceOver_def premultiply_zero split: prod.splits)




lemma fold_rows:
  assumes "\<And>x y cv. x < w \<Longrightarrow> H y x cv = Q (y * w + x) cv"
  shows "fold (\<lambda>y. fold (H y) [0 ..< w]) [0 ..< h] cv = fold Q [0 ..< h * w] cv"
proof (induction h)
  case 0
  show ?case by simp
next
  case (Suc h)
  have row: "fold (H h) [0 ..< w] c = fold Q [h * w ..< h * w + w] c" for c
  proof -
    have "[h * w ..< h * w + w] = map (\<lambda>x. h * w + x) [0 ..< w]"
      by (rule nth_equalityI) simp_all
    then have "fold Q [h * w ..< h * w + w] c = fold (\<lambda>x. Q (h * w + x)) [0 ..< w] c"
      by (simp add: fold_map comp_def)
    also have "\<dots> = fold (H h) [0 ..< w] c"
      by (rule fold_cong) (simp_all add: assms fun_eq_iff)
    finally show ?thesis by simp
  qed
  have "[0 ..< h * w + w] = [0 ..< h * w] @ [h * w ..< h * w + w]"
    by (rule upt_add_eq_append) simp
  moreover have "Suc h * w = h * w + w" by simp
  ultimately have split: "[0 ..< Suc h * w] = [0 ..< h * w] @ [h * w ..< h * w + w]"
    by (simp only:)
  have "fold (\<lambda>y. fold (H y) [0 ..< w]) [0 ..< Suc h] cv =
        fold (H h) [0 ..< w] (fold (\<lambda>y. fold (H y) [0 ..< w]) [0 ..< h] cv)" by simp
  also have "\<dots> = fold Q [h * w ..< h * w + w] (fold Q [0 ..< h * w] cv)"
    by (simp only: Suc row)
  also have "\<dots> = fold Q ([0 ..< h * w] @ [h * w ..< h * w + w]) cv" by simp
  also have "\<dots> = fold Q [0 ..< Suc h * w] cv" by (simp only: split)
  finally show ?case .
qed

lemma fold_fill:
  assumes "m \<le> length cv0"
  shows "fold (\<lambda>k cv. if k < n then (if k < length cv then cv[k := F k (cv ! k)] else cv) else cv)
              [0 ..< m] cv0 =
         map (\<lambda>k. if k < m \<and> k < n then F k (cv0 ! k) else cv0 ! k) [0 ..< length cv0]"
  using assms
proof (induction m)
  case 0
  show ?case by (simp add: map_nth)
next
  case (Suc m)
  let ?g = "\<lambda>m k. if k < m \<and> k < n then F k (cv0 ! k) else cv0 ! k"
  have m: "m < length cv0" using Suc.prems by simp
  have IH: "fold (\<lambda>k cv. if k < n then (if k < length cv then cv[k := F k (cv ! k)] else cv) else cv)
              [0 ..< m] cv0 = map (?g m) [0 ..< length cv0]"
    using Suc.IH m by simp
  show ?case
  proof (cases "m < n")
    case True
    have "(map (?g m) [0 ..< length cv0])[m := F m (map (?g m) [0 ..< length cv0] ! m)]
          = map (?g (Suc m)) [0 ..< length cv0]"
    proof (rule nth_equalityI)
      show "length ((map (?g m) [0 ..< length cv0])[m := F m (map (?g m) [0 ..< length cv0] ! m)])
            = length (map (?g (Suc m)) [0 ..< length cv0])" by simp
    next
      fix i
      assume "i < length ((map (?g m) [0 ..< length cv0])[m := F m (map (?g m) [0 ..< length cv0] ! m)])"
      then have i: "i < length cv0" by simp
      show "(map (?g m) [0 ..< length cv0])[m := F m (map (?g m) [0 ..< length cv0] ! m)] ! i
            = map (?g (Suc m)) [0 ..< length cv0] ! i"
        using i m True by (cases "i = m") (auto simp: nth_list_update)
    qed
    then show ?thesis using True m by (simp add: IH)
  next
    case False
    have "map (?g m) [0 ..< length cv0] = map (?g (Suc m)) [0 ..< length cv0]"
      using False by (intro map_cong refl) auto
    then show ?thesis using False by (simp add: IH)
  qed
qed

lemma drawSamples_unit:
  "drawSamples (map (sampleAt img) [0 ..< height img * width img]) (width img) (height img)
   = map (\<lambda>k. premultiplied (colorAt img (int k * 4))) [0 ..< height img * width img]"
proof -
  let ?w = "width img" and ?h = "height img"
  let ?S = "map (sampleAt img) [0 ..< ?h * ?w]"
  let ?F = "\<lambda>k. sourceOver (premultiplied (sample_color (?S ! k)))"
  let ?Q = "\<lambda>k cv. if k < length ?S then (if k < length cv then cv[k := ?F k (cv ! k)] else cv) else cv"
  let ?cv0 = "clearRect ?w ?h"
  have len: "length ?cv0 = ?h * ?w" by (simp add: clearRect_def mult.commute)
  have "drawSamples ?S ?w ?h = fold ?Q [0 ..< ?h * ?w] ?cv0"
    unfolding drawSamples_def Let_def
    by (rule fold_rows) (simp add: fillRect_def)
  also have "\<dots> = map (\<lambda>k. if k < ?h * ?w \<and> k < length ?S then ?F k (?cv0 ! k) else ?cv0 ! k)
                      [0 ..< length ?cv0]"
    by (rule fold_fill) (simp add: len)
  also have "\<dots> = map (\<lambda>k. premultiplied (colorAt img (int k * 4))) [0 ..< ?h * ?w]"
    unfolding len
    by (rule map_cong [OF refl])
       (simp add: clearRect_def mult.commute sourceOver_clear sampleAt_def)
  finally show ?thesis .
qed


subsection \<open>The reconstructed image\<close>



lemma reconstruction_unit:
  assumes "1 \<le> width img" and "1 \<le> height img"
  shows "generatePixelArt (int (height img)) (Some img) =
         Inr \<lparr>width = width img, height = height img,
              data = concat (map (\<lambda>k. colorBytes (unpremultiplied (premultiplied
                                          (colorAt img (int k * 4)))))
                                 [0 ..< height img * width img])\<rparr>"
proof -
  have ps: "real (height img) / real_of_int (int (height img)) = 1" using assms by simp
  have "generatePixelArt (int (height img)) (Some img) =
        Inr \<lparr>width = width img, height = height img,
             data = getImageData
                      (drawSamples (gridSamples (int (height img)) img) (width img) (height img))\<rparr>"
    unfolding generatePixelArt_def Let_def ps div_by_1 mathRound_nat nat_int
    using assms by (simp add: mathRound_nat)
  then show ?thesis
    by (simp add: gridSamples_unit [OF assms(2)] drawSamples_unit getImageData_def comp_def)
qed







text \<open>
  A pixel of an alpha between 0 and 255 keeps its alpha, and of its colour what the
  premultiplied bytes hold: the source pixel (4, 5, 6, 7) is reconstructed as (0, 0, 0, 7).
\<close>

lemma partly_transparent_pixel_example:
  "generatePixelArt 1 (Some \<lparr>width = 1, height = 1, data = [4, 5, 6, 7]\<rparr>)
   = Inr \<lparr>width = 1, height = 1, data = [0, 0, 0, 7]\<rparr>"
  using reconstruction_unit [of "\<lparr>width = 1, height = 1, data = [4, 5, 6, 7]\<rparr>"]
  by (simp add: colorAt_def colorBytes_def unpremultiplied_def premultiplied_def
      premultiply_def unpremultiply_def)

section \<open>The colour histogram\<close>

subsection \<open>The key\<close>

lemma hexDigit_inj:
  assumes "a < 16" "b < 16" "hexDigit a = hexDigit b"
  shows "a = b"
proof -
  have d: "distinct ''0123456789abcdef''" by simp
  have l: "length ''0123456789abcdef'' = 16" by simp
  from assms show ?thesis
    unfolding hexDigit_def using nth_eq_iff_index_eq [OF d, of a b] l by simp
qed

lemma toString16_small: "n < 16 \<Longrightarrow> toString16 n = [hexDigit n]"
  by simp

lemma toString16_byte:
  assumes "16 \<le> n" "n < 256"
  shows "toString16 n = [hexDigit (n div 16), hexDigit (n mod 16)]"
proof -
  have "n div 16 < 16" using assms by simp
  then have "toString16 (n div 16) = [hexDigit (n div 16)]" by (rule toString16_small)
  moreover have "toString16 n = toString16 (n div 16) @ [hexDigit (n mod 16)]"
    using assms by (subst toString16.simps) simp
  ultimately show ?thesis by simp
qed

lemma hex2_digits: "hex2 v = [hexDigit (unat v div 16), hexDigit (unat v mod 16)]"
proof -
  have "unat v < 2 ^ LENGTH(8)" by (rule unsigned_less)
  then have lt: "unat v < 256" by simp
  show ?thesis
  proof (cases "unat v < 16")
    case True
    then have "toString16 (unat v) = [hexDigit (unat v)]" by (rule toString16_small)
    then show ?thesis using True by (simp add: hex2_def padStart_def hexDigit_def)
  next
    case False
    then have "toString16 (unat v) = [hexDigit (unat v div 16), hexDigit (unat v mod 16)]"
      using lt by (intro toString16_byte) simp_all
    then show ?thesis by (simp add: hex2_def padStart_def)
  qed
qed

lemma hex2_inj: "hex2 v = hex2 v' \<longleftrightarrow> v = v'"
proof
  assume "hex2 v = hex2 v'"
  then have e: "hexDigit (unat v div 16) = hexDigit (unat v' div 16)"
               "hexDigit (unat v mod 16) = hexDigit (unat v' mod 16)"
    by (simp_all add: hex2_digits)
  have "unat v < 2 ^ LENGTH(8)" "unat v' < 2 ^ LENGTH(8)" by (rule unsigned_less)+
  then have lt: "unat v < 256" "unat v' < 256" by simp_all
  then have "unat v div 16 < 16" "unat v' div 16 < 16" by simp_all
  from hexDigit_inj [OF this e(1)] have d: "unat v div 16 = unat v' div 16" .
  have "unat v mod 16 < 16" "unat v' mod 16 < 16" by simp_all
  from hexDigit_inj [OF this e(2)] have m: "unat v mod 16 = unat v' mod 16" .
  have "unat v = 16 * (unat v div 16) + unat v mod 16" by simp
  also have "\<dots> = 16 * (unat v' div 16) + unat v' mod 16" by (simp only: d m)
  also have "\<dots> = unat v'" by simp
  finally show "v = v'" by (simp only: word_unat_eq_iff)
qed simp

lemma colorKeyOf_inj:
  "colorKeyOf r g b = colorKeyOf r' g' b' \<longleftrightarrow> r = r' \<and> g = g' \<and> b = b'"
proof -
  have len: "length (hex2 v) = 2" for v by (simp add: hex2_digits)
  have "colorKeyOf r g b = colorKeyOf r' g' b' \<longleftrightarrow>
        hex2 r = hex2 r' \<and> hex2 g = hex2 g' \<and> hex2 b = hex2 b'"
    by (simp add: colorKeyOf_def len)
  then show ?thesis by (simp only: hex2_inj)
qed

subsection \<open>The counting loop\<close>

lemma opaqueKey_alt: "opaqueKey k p \<longleftrightarrow> opaque p \<and> keyOf p = k"
  by (simp add: opaqueKey_def opaque_def keyOf_def split: prod.splits)

lemma increment_keys: "map fst (increment key cc) = map fst cc"
  by (induction cc) (auto simp: increment_def)

lemma increment_absent: "key \<notin> fst ` set cc \<Longrightarrow> increment key cc = cc"
  by (induction cc) (auto simp: increment_def)

lemma increment_entry:
  assumes "(k, e) \<in> set (increment key cc)"
  shows "\<exists>e0. (k, e0) \<in> set cc \<and> e = (if k = key then e0\<lparr>count := count e0 + 1\<rparr> else e0)"
  using assms by (auto simp: increment_def split: if_splits)

lemma increment_sum:
  "distinct (map fst cc) \<Longrightarrow> key \<in> fst ` set cc \<Longrightarrow>
   sum_list (map (\<lambda>(k, e). count e) (increment key cc)) = Suc (sum_list (map (\<lambda>(k, e). count e) cc))"
proof (induction cc)
  case Nil
  then show ?case by simp
next
  case (Cons x cc)
  obtain k e where x: "x = (k, e)" by (cases x)
  show ?case
  proof (cases "k = key")
    case True
    then have "key \<notin> fst ` set cc" using Cons.prems(1) x by auto
    then have "increment key cc = cc" by (rule increment_absent)
    moreover have "increment key (x # cc) = (k, e\<lparr>count := count e + 1\<rparr>) # increment key cc"
      using True x by (simp add: increment_def)
    ultimately show ?thesis using x by simp
  next
    case False
    then have "key \<in> fst ` set cc" using Cons.prems(2) x by auto
    with Cons.IH Cons.prems(1) have "sum_list (map (\<lambda>(k, e). count e) (increment key cc))
        = Suc (sum_list (map (\<lambda>(k, e). count e) cc))" by simp
    moreover have "increment key (x # cc) = (k, e) # increment key cc"
      using False x by (simp add: increment_def)
    ultimately show ?thesis using x by simp
  qed
qed

lemma counted_transparent:
  assumes "counted ps cc" "\<not> opaque p"
  shows "counted (ps @ [p]) cc"
  using assms by (auto simp: counted_def opaqueKey_alt)

lemma counted_known:
  assumes "counted ps cc" "opaque p" "keyOf p \<in> fst ` set cc"
  shows "counted (ps @ [p]) (increment (keyOf p) cc)"
proof -
  have d: "distinct (map fst (increment (keyOf p) cc))"
    using assms(1) by (simp add: increment_keys counted_def)
  have e: "\<forall>(k, e) \<in> set (increment (keyOf p) cc).
      color e = k \<and> 0 < count e \<and> count e = length (filter (opaqueKey k) (ps @ [p]))"
  proof (intro ballI, clarify)
    fix k e assume "(k, e) \<in> set (increment (keyOf p) cc)"
    from increment_entry [OF this] obtain e0 where mem: "(k, e0) \<in> set cc"
      and e: "e = (if k = keyOf p then e0\<lparr>count := count e0 + 1\<rparr> else e0)" by blast
    from assms(1) mem have old: "color e0 = k \<and> 0 < count e0 \<and>
        count e0 = length (filter (opaqueKey k) ps)" unfolding counted_def by blast
    show "color e = k \<and> 0 < count e \<and> count e = length (filter (opaqueKey k) (ps @ [p]))"
    proof (cases "k = keyOf p")
      case True
      then have "e = e0\<lparr>count := count e0 + 1\<rparr>" using e by simp
      moreover have "opaqueKey k p" using True assms(2) by (simp add: opaqueKey_alt)
      ultimately show ?thesis using old by auto
    next
      case False
      then have "e = e0" using e by simp
      moreover have "\<not> opaqueKey k p" using False by (simp add: opaqueKey_alt)
      ultimately show ?thesis using old by auto
    qed
  qed
  have m: "\<forall>q \<in> set (ps @ [p]). opaque q \<longrightarrow> keyOf q \<in> fst ` set (increment (keyOf p) cc)"
  proof -
    have "fst ` set (increment (keyOf p) cc) = fst ` set cc"
      using increment_keys [of "keyOf p" cc] by (metis set_map)
    then show ?thesis using assms by (auto simp: counted_def)
  qed
  have s: "sum_list (map (\<lambda>(k, e). count e) (increment (keyOf p) cc)) = length (filter opaque (ps @ [p]))"
    using assms increment_sum [of cc "keyOf p"] by (simp add: counted_def)
  from d e m s show ?thesis unfolding counted_def by blast
qed

lemma counted_new:
  assumes "counted ps cc" "opaque p" "keyOf p \<notin> fst ` set cc" "color e = keyOf p" "count e = 1"
  shows "counted (ps @ [p]) (cc @ [(keyOf p, e)])"
proof -
  have none: "filter (opaqueKey (keyOf p)) ps = []"
  proof -
    have "\<not> opaqueKey (keyOf p) q" if "q \<in> set ps" for q
    proof
      assume "opaqueKey (keyOf p) q"
      then have "opaque q" "keyOf q = keyOf p" by (simp_all add: opaqueKey_alt)
      with assms(1) that have "keyOf p \<in> fst ` set cc" unfolding counted_def by metis
      with assms(3) show False by simp
    qed
    then show ?thesis by (simp add: filter_empty_conv)
  qed
  have d: "distinct (map fst (cc @ [(keyOf p, e)]))"
    using assms(1,3) by (simp add: counted_def)
  have en: "\<forall>(k, e') \<in> set (cc @ [(keyOf p, e)]).
      color e' = k \<and> 0 < count e' \<and> count e' = length (filter (opaqueKey k) (ps @ [p]))"
  proof (intro ballI, clarify)
    fix k e' assume mem: "(k, e') \<in> set (cc @ [(keyOf p, e)])"
    show "color e' = k \<and> 0 < count e' \<and> count e' = length (filter (opaqueKey k) (ps @ [p]))"
    proof (cases "(k, e') \<in> set cc")
      case True
      with assms(1) have old: "color e' = k \<and> 0 < count e' \<and>
          count e' = length (filter (opaqueKey k) ps)" unfolding counted_def by blast
      from True have "k \<in> fst ` set cc" by force
      with assms(3) have "k \<noteq> keyOf p" by blast
      then have "\<not> opaqueKey k p" by (simp add: opaqueKey_alt)
      with old show ?thesis by auto
    next
      case False
      with mem have "k = keyOf p" "e' = e" by simp_all
      with assms(2,4,5) none show ?thesis by (simp add: opaqueKey_alt)
    qed
  qed
  have m: "\<forall>q \<in> set (ps @ [p]). opaque q \<longrightarrow> keyOf q \<in> fst ` set (cc @ [(keyOf p, e)])"
    using assms(1) by (auto simp: counted_def)
  have s: "sum_list (map (\<lambda>(k, e). count e) (cc @ [(keyOf p, e)])) = length (filter opaque (ps @ [p]))"
    using assms(1,2,5) by (simp add: counted_def)
  from d en m s show ?thesis unfolding counted_def by blast
qed

lemma countColors_counted:
  "counted ps cc \<Longrightarrow> counted (ps @ pixelsOf d) (countColors d cc)"
proof (induction d cc arbitrary: ps rule: countColors.induct)
  case (1 r g b a rest cc)
  let ?p = "(r, g, b, a)"
  show ?case
  proof (cases "a = 0")
    case True
    then have "counted (ps @ [?p]) cc"
      using "1.prems" by (intro counted_transparent) (simp_all add: opaque_def)
    from "1.IH"(1) [OF True this] True show ?thesis by simp
  next
    case False
    then have op: "opaque ?p" by (simp add: opaque_def)
    have key: "keyOf ?p = colorKeyOf r g b" by (simp add: keyOf_def)
    show ?thesis
    proof (cases "map_of cc (colorKeyOf r g b)")
      case None
      then have "keyOf ?p \<notin> fst ` set cc" by (simp add: key map_of_eq_None_iff)
      then have "counted (ps @ [?p])
          (cc @ [(keyOf ?p, \<lparr>color = colorKeyOf r g b, count = 1, rgba = (r, g, b, a)\<rparr>)])"
        using "1.prems" op by (intro counted_new) (simp_all add: key)
      then have "counted (ps @ [?p])
          (cc @ [(colorKeyOf r g b, \<lparr>color = colorKeyOf r g b, count = 1, rgba = (r, g, b, a)\<rparr>)])"
        by (simp only: key)
      from "1.IH"(2) [OF False refl None this] False None show ?thesis by (simp add: Let_def)
    next
      case (Some e)
      then have "keyOf ?p \<in> fst ` set cc"
        by (metis key map_of_eq_None_iff option.distinct(1))
      then have "counted (ps @ [?p]) (increment (keyOf ?p) cc)"
        using "1.prems" op by (intro counted_known)
      then have "counted (ps @ [?p]) (increment (colorKeyOf r g b) cc)" by (simp only: key)
      from "1.IH"(3) [OF False refl Some this] False Some show ?thesis by (simp add: Let_def)
    qed
  qed
qed simp_all


lemma pixelsOf_length: "length (pixelsOf d) = length d div 4"
  by (induction d rule: pixelsOf.induct) simp_all

lemma pixelsOf_nth:
  "i < length d div 4 \<Longrightarrow>
   pixelsOf d ! i = (d ! (4 * i), d ! (4 * i + 1), d ! (4 * i + 2), d ! (4 * i + 3))"
proof (induction d arbitrary: i rule: pixelsOf.induct)
  case (1 r g b a rest)
  show ?case
  proof (cases i)
    case 0
    then show ?thesis by simp
  next
    case (Suc j)
    then have j: "j < length rest div 4" using "1.prems" by simp
    have sh: "(r # g # b # a # rest) ! (4 * Suc j + c) = rest ! (4 * j + c)" for c
    proof -
      have "4 * Suc j + c = Suc (Suc (Suc (Suc (4 * j + c))))" by simp
      then show ?thesis by (simp only: nth_Cons_Suc)
    qed
    have "pixelsOf (r # g # b # a # rest) ! i = pixelsOf rest ! j" using Suc by simp
    also have "\<dots> = (rest ! (4 * j + 0), rest ! (4 * j + 1), rest ! (4 * j + 2), rest ! (4 * j + 3))"
      using "1.IH" [OF j] by simp
    also have "\<dots> = ((r # g # b # a # rest) ! (4 * Suc j + 0), (r # g # b # a # rest) ! (4 * Suc j + 1),
        (r # g # b # a # rest) ! (4 * Suc j + 2), (r # g # b # a # rest) ! (4 * Suc j + 3))"
      by (simp only: sh)
    finally show ?thesis by (simp only: Suc add_0_right)
  qed
qed simp_all

lemma insort_sum:
  "sum_list (map g (insort_key f x xs)) = g x + sum_list (map g xs)" for g :: "'a \<Rightarrow> nat"
  by (induction xs) simp_all

lemma sort_sum: "sum_list (map g (sort_key f xs)) = sum_list (map g xs)" for g :: "'a \<Rightarrow> nat"
  by (induction xs) (simp_all add: insort_sum)

lemma sort_distinct_map: "distinct (map g (sort_key f xs)) = distinct (map g xs)"
  by (simp add: distinct_map)

lemma counted_start: "counted [] []"
  by (simp add: counted_def)

text \<open>
  Claim C6. For a buffer of whole pixels: the counts of the histogram sum to the number of
  pixels with non-zero alpha; the entries have distinct keys; the count of an entry is
  positive and is the number of pixels with non-zero alpha whose key is the entry's key;
  every pixel with non-zero alpha has its key among the entries (so it is counted in
  exactly one entry, and a pixel with alpha 0 in none); and the key of a pixel determines
  its red, green and blue bytes and nothing else (two pixels have the same key exactly
  when they agree on the three bytes, whatever their alpha).
\<close>

theorem histogram_counts:
  assumes "4 dvd length d"
  shows "sum_list (map count (generateColorHistogram d)) = length (filter opaque (pixelsOf d)) \<and>
         distinct (map color (generateColorHistogram d)) \<and>
         (\<forall>e \<in> set (generateColorHistogram d).
            0 < count e \<and> count e = length (filter (opaqueKey (color e)) (pixelsOf d))) \<and>
         (\<forall>p \<in> set (pixelsOf d). opaque p \<longrightarrow> keyOf p \<in> color ` set (generateColorHistogram d)) \<and>
         (\<forall>r g b a r' g' b' a'.
            keyOf (r, g, b, a) = keyOf (r', g', b', a') \<longleftrightarrow> r = r' \<and> g = g' \<and> b = b')"
proof -
  let ?cc = "countColors d []"
  from countColors_counted [OF counted_start, of d] have c: "counted (pixelsOf d) ?cc" by simp
  have snd_fst: "map color (map snd ?cc) = map fst ?cc"
    using c by (auto simp: counted_def)
  have sum: "sum_list (map count (map snd ?cc)) = length (filter opaque (pixelsOf d))"
  proof -
    have "map count (map snd ?cc) = map (\<lambda>(k, e). count e) ?cc"
      by (simp add: case_prod_beta)
    moreover have "sum_list (map (\<lambda>(k, e). count e) ?cc) = length (filter opaque (pixelsOf d))"
      using c unfolding counted_def by blast
    ultimately show ?thesis by (simp only:)
  qed
  have 1: "sum_list (map count (generateColorHistogram d)) = length (filter opaque (pixelsOf d))"
    unfolding generateColorHistogram_def by (simp only: sort_sum sum)
  have 2: "distinct (map color (generateColorHistogram d))"
    unfolding generateColorHistogram_def sort_distinct_map snd_fst using c by (simp add: counted_def)
  have set: "set (generateColorHistogram d) = snd ` set ?cc"
    unfolding generateColorHistogram_def by simp
  have 3: "\<forall>e \<in> set (generateColorHistogram d).
            0 < count e \<and> count e = length (filter (opaqueKey (color e)) (pixelsOf d))"
    unfolding set using c by (auto simp: counted_def)
  have 4: "\<forall>p \<in> set (pixelsOf d). opaque p \<longrightarrow> keyOf p \<in> color ` set (generateColorHistogram d)"
  proof (intro ballI impI)
    fix p assume "p \<in> set (pixelsOf d)" "opaque p"
    with c obtain e where m: "(keyOf p, e) \<in> set ?cc" unfolding counted_def by force
    with c have "color e = keyOf p" unfolding counted_def by blast
    moreover from m have "e \<in> snd ` set ?cc" by force
    ultimately show "keyOf p \<in> color ` set (generateColorHistogram d)"
      unfolding set by force
  qed
  have 5: "\<forall>r g b a r' g' b' a'.
            keyOf (r, g, b, a) = keyOf (r', g', b', a') \<longleftrightarrow> r = r' \<and> g = g' \<and> b = b'"
    by (simp add: keyOf_def colorKeyOf_inj)
  from 1 2 3 4 5 show ?thesis by blast
qed

lemma histogram_example_Suc:
  "generateColorHistogram [255, 0, 0, 255, 255, 0, 0, 128, 7, 7, 7, 0, 0, 255, 0, 255]
  = [\<lparr>color = ''#ff0000'', count = Suc (Suc 0), rgba = (255, 0, 0, 255)\<rparr>,
     \<lparr>color = ''#00ff00'', count = Suc 0, rgba = (0, 255, 0, 255)\<rparr>]"
  by (simp add: generateColorHistogram_def colorKeyOf_def hex2_digits hexDigit_def increment_def
      Let_def)

lemma histogram_example:
  "generateColorHistogram [255, 0, 0, 255, 255, 0, 0, 128, 7, 7, 7, 0, 0, 255, 0, 255]
  = [\<lparr>color = ''#ff0000'', count = 2, rgba = (255, 0, 0, 255)\<rparr>,
     \<lparr>color = ''#00ff00'', count = 1, rgba = (0, 255, 0, 255)\<rparr>]"
  using histogram_example_Suc by (simp add: numeral_2_eq_2)

text \<open>
  Four pixels: two reds that differ in alpha only, a pixel of alpha 0, a green. The
  histogram has the red with count 2 and the first red's alpha, and the green with count 1.
\<close>

theorem histogram_counts_witness:
  "4 dvd length [255, 0, 0, 255, 255, 0, 0, 128, 7, 7, 7, 0, 0, 255, 0, 255 :: byte] \<and>
   sum_list (map count
     (generateColorHistogram [255, 0, 0, 255, 255, 0, 0, 128, 7, 7, 7, 0, 0, 255, 0, 255])) = 3 \<and>
   generateColorHistogram [255, 0, 0, 255, 255, 0, 0, 128, 7, 7, 7, 0, 0, 255, 0, 255]
     = [\<lparr>color = ''#ff0000'', count = 2, rgba = (255, 0, 0, 255)\<rparr>,
        \<lparr>color = ''#00ff00'', count = 1, rgba = (0, 255, 0, 255)\<rparr>]"
proof -
  have "length [255, 0, 0, 255, 255, 0, 0, 128, 7, 7, 7, 0, 0, 255, 0, 255 :: byte] = 16"
    by simp
  then have dvd: "4 dvd length [255, 0, 0, 255, 255, 0, 0, 128, 7, 7, 7, 0, 0, 255, 0, 255 :: byte]"
    by (simp only:) simp
  have "length (filter opaque
          (pixelsOf [255, 0, 0, 255, 255, 0, 0, 128, 7, 7, 7, 0, 0, 255, 0, 255])) = 3"
    by (simp add: opaque_def)
  with histogram_counts [OF dvd, THEN conjunct1]
  have "sum_list (map count
     (generateColorHistogram [255, 0, 0, 255, 255, 0, 0, 128, 7, 7, 7, 0, 0, 255, 0, 255])) = 3"
    by (simp only:)
  with dvd histogram_example show ?thesis by (simp only: simp_thms)
qed

section \<open>The background matte is the closure of the border\<close>

lemma idx_pix: "inImage w h p \<Longrightarrow> idx w p = int (pix w p)"
  by (cases p) (simp add: inImage_def idx_def pix_def)

lemma idx_range:
  assumes "inImage w h p"
  shows "0 \<le> idx w p \<and> idx w p < int (w * h)"
  using assms inb_index [of "fst p" w "snd p" h]
  by (cases p) (simp add: inImage_def idx_def)

lemma pix_range:
  assumes "inImage w h p"
  shows "pix w p < w * h"
proof -
  from idx_range [OF assms] idx_pix [OF assms] have "int (pix w p) < int (w * h)"
    by (simp only:)
  then show ?thesis by (simp only: of_nat_less_iff)
qed

lemma idx_inj:
  assumes "inImage w h p" "inImage w h q" "idx w p = idx w q"
  shows "p = q"
proof -
  obtain x y where p: "p = (x, y)" by (cases p)
  obtain x' y' where q: "q = (x', y')" by (cases q)
  from assms p q have b: "0 \<le> x" "x < int w" "0 \<le> y" "0 \<le> x'" "x' < int w" "0 \<le> y'"
    and e: "y * int w + x = y' * int w + x'"
    by (simp_all add: inImage_def idx_def)
  have lt: "False" if "a < b" "a * int w + c = b * int w + c'" "0 \<le> c'" "c < int w" for a b c c'
  proof -
    from that(1) have "a + 1 \<le> b" by simp
    then have "(a + 1) * int w \<le> b * int w" by (rule mult_right_mono) simp
    then have "a * int w + int w \<le> b * int w" by (simp add: algebra_simps)
    with that show False by linarith
  qed
  have "y = y'"
  proof (rule ccontr)
    assume "y \<noteq> y'"
    then consider "y < y'" | "y' < y" by linarith
    then show False
    proof cases
      case 1
      from lt [OF 1 e b(4) b(2)] show False .
    next
      case 2
      from lt [OF 2 e [symmetric] b(1) b(5)] show False .
    qed
  qed
  with e have "x = x'" by simp
  with \<open>y = y'\<close> p q show ?thesis by simp
qed

lemma pix_inj: "inImage w h p \<Longrightarrow> inImage w h q \<Longrightarrow> pix w p = pix w q \<Longrightarrow> p = q"
  using idx_inj [of w h p q] idx_pix [of w h p] idx_pix [of w h q] by simp

lemma channelAt_pix: "channelAt d w p c = d ! (4 * pix w p + c)"
  by (cases p) (simp add: channelAt_def pix_def)

lemma isTargetColor_within:
  assumes "length d = 4 * w * h" "inImage w h (x, y)"
  shows "isTargetColor d w tc x y = withinTolerance tc d w (x, y)"
proof -
  let ?k = "pix w (x, y)"
  have k: "y * int w + x = int ?k" using idx_pix [OF assms(2)] by (simp add: idx_def)
  have lt: "?k < w * h" using pix_range [OF assms(2)] .
  have r: "rd d (int ?k * 4 + int c) = Some (d ! (4 * ?k + c))" if "c < 4" for c
  proof -
    have "4 * ?k + c < length d" using lt that assms(1) by simp
    moreover have "nat (int ?k * 4 + int c) = 4 * ?k + c" by simp
    moreover have "0 \<le> int ?k * 4 + int c" by simp
    moreover have "int ?k * 4 + int c < int (length d)" using \<open>4 * ?k + c < length d\<close> by linarith
    ultimately show ?thesis by (simp only: rd_def) simp
  qed
  from r [of 0] r [of 1] r [of 2]
  have rs: "rd d (int ?k * 4) = Some (d ! (4 * ?k))"
    "rd d (int ?k * 4 + 1) = Some (d ! (4 * ?k + 1))"
    "rd d (int ?k * 4 + 2) = Some (d ! (4 * ?k + 2))" by simp_all
  obtain tr tg tb ta where tc: "tc = (tr, tg, tb, ta)" by (cases tc)
  show ?thesis
    by (simp add: isTargetColor_def Let_def k rs tc withinTolerance_def channelAt_pix tolerance_def)
qed

lemma withinTolerance_rgb:
  assumes "\<forall>i. i mod 4 \<noteq> 3 \<longrightarrow> d ! i = d0 ! i"
  shows "withinTolerance tc d w p = withinTolerance tc d0 w p"
proof -
  have ne: "(4 * k + 0) mod 4 \<noteq> 3" "(4 * k + 1) mod 4 \<noteq> 3" "(4 * k + 2) mod 4 \<noteq> 3"
    for k :: nat by presburger+
  have "d ! (4 * pix w p + 0) = d0 ! (4 * pix w p + 0)"
    "d ! (4 * pix w p + 1) = d0 ! (4 * pix w p + 1)"
    "d ! (4 * pix w p + 2) = d0 ! (4 * pix w p + 2)"
    using assms ne by blast+
  then show ?thesis
    by (simp only: withinTolerance_def channelAt_pix)
qed

lemma wr_length: "length (wr d i v) = length d"
  by (simp add: wr_def)

lemma wr_nth: "wr d j v ! i = (if int i = j \<and> i < length d then v else d ! i)"
  by (auto simp: wr_def nth_list_update)

lemma wr_rgb:
  assumes "i mod 4 \<noteq> 3"
  shows "wr d (k * 4 + 3) v ! i = d ! i"
proof -
  have "int i = k * 4 + 3 \<Longrightarrow> i mod 4 = 3" by presburger
  with assms have "int i \<noteq> k * 4 + 3" by blast
  then show ?thesis by (simp only: wr_nth) simp
qed

lemma alphaAt_wr:
  assumes "length d = 4 * w * h" "inImage w h p" "inImage w h q"
  shows "alphaAt (wr d (idx w p * 4 + 3) 0) w q = (if q = p then 0 else alphaAt d w q)"
proof -
  have ip: "idx w p = int (pix w p)" using idx_pix [OF assms(2)] .
  have lt: "4 * pix w q + 3 < length d" using pix_range [OF assms(3)] assms(1) by simp
  have "wr d (idx w p * 4 + 3) 0 ! (4 * pix w q + 3) =
        (if int (4 * pix w q + 3) = idx w p * 4 + 3 \<and> 4 * pix w q + 3 < length d then 0
         else d ! (4 * pix w q + 3))"
    by (rule wr_nth)
  also have "\<dots> = (if pix w q = pix w p then 0 else d ! (4 * pix w q + 3))"
    using lt by (simp add: ip)
  also have "\<dots> = (if q = p then 0 else d ! (4 * pix w q + 3))"
    using pix_inj [OF assms(3,2)] by auto
  finally show ?thesis by (simp add: alphaAt_def channelAt_pix)
qed

subsection \<open>One turn of the neighbour loop\<close>

lemma expands_refl: "expands w h tc d0 p s s"
  by (simp add: expands_def)

lemma expands_trans:
  assumes "expands w h tc d0 p s s1" "expands w h tc d0 p s1 s2"
  shows "expands w h tc d0 p s s2"
proof -
  let ?new = "\<lambda>n. inImage w h n \<and> withinTolerance tc d0 w n \<and> adjacent4 p n"
  from assms(1) have m1: "\<And>i. snd s i \<Longrightarrow> snd s1 i"
    and s1: "set (fst s) \<subseteq> set (fst s1)"
    and n1: "\<And>n. n \<in> set (fst s1) \<Longrightarrow> n \<in> set (fst s) \<or> (?new n \<and> snd s1 (idx w n))"
    and v1: "\<And>i. snd s1 i \<Longrightarrow> snd s i \<or> (\<exists>n \<in> set (fst s1). idx w n = i \<and> ?new n)"
    unfolding expands_def by simp_all
  from assms(2) have m2: "\<And>i. snd s1 i \<Longrightarrow> snd s2 i"
    and s2: "set (fst s1) \<subseteq> set (fst s2)"
    and n2: "\<And>n. n \<in> set (fst s2) \<Longrightarrow> n \<in> set (fst s1) \<or> (?new n \<and> snd s2 (idx w n))"
    and v2: "\<And>i. snd s2 i \<Longrightarrow> snd s1 i \<or> (\<exists>n \<in> set (fst s2). idx w n = i \<and> ?new n)"
    unfolding expands_def by simp_all
  have a: "\<forall>i. snd s i \<longrightarrow> snd s2 i" using m1 m2 by simp
  have b: "set (fst s) \<subseteq> set (fst s2)" using s1 s2 by simp
  have c: "\<forall>n \<in> set (fst s2). n \<in> set (fst s) \<or> (?new n \<and> snd s2 (idx w n))"
  proof
    fix n assume "n \<in> set (fst s2)"
    from n2 [OF this] show "n \<in> set (fst s) \<or> (?new n \<and> snd s2 (idx w n))"
    proof
      assume "n \<in> set (fst s1)"
      from n1 [OF this] show ?thesis using m2 by auto
    next
      assume "?new n \<and> snd s2 (idx w n)"
      then show ?thesis by simp
    qed
  qed
  have d: "\<forall>i. snd s2 i \<longrightarrow> snd s i \<or> (\<exists>n \<in> set (fst s2). idx w n = i \<and> ?new n)"
  proof (intro allI impI)
    fix i assume "snd s2 i"
    from v2 [OF this] show "snd s i \<or> (\<exists>n \<in> set (fst s2). idx w n = i \<and> ?new n)"
    proof
      assume "snd s1 i"
      from v1 [OF this] show ?thesis using s2 by auto
    next
      assume "\<exists>n \<in> set (fst s2). idx w n = i \<and> ?new n"
      then show ?thesis by simp
    qed
  qed
  from a b c d show ?thesis unfolding expands_def by simp
qed

lemma adjacent4_directions:
  "adjacent4 (x, y) n \<longleftrightarrow> (\<exists>dir \<in> set directions. n = (x + fst dir, y + snd dir))"
proof -
  obtain x' y' where n: "n = (x', y')" by (cases n)
  have "\<bar>x - x'\<bar> + \<bar>y - y'\<bar> = 1 \<longleftrightarrow>
        (x' = x - 1 \<and> y' = y) \<or> (x' = x + 1 \<and> y' = y) \<or> (x' = x \<and> y' = y - 1) \<or> (x' = x \<and> y' = y + 1)"
    by linarith
  then show ?thesis unfolding n adjacent4_def directions_def by auto
qed

lemma sameRGB_target:
  assumes "sameRGB w h d0 d" "inImage w h (x, y)"
  shows "isTargetColor d w tc x y = withinTolerance tc d0 w (x, y)"
proof -
  have "length d = 4 * w * h" using assms(1) by (simp add: sameRGB_def)
  from isTargetColor_within [OF this assms(2)]
  have "isTargetColor d w tc x y = withinTolerance tc d w (x, y)" .
  also have "\<dots> = withinTolerance tc d0 w (x, y)"
    using assms(1) by (intro withinTolerance_rgb) (simp add: sameRGB_def)
  finally show ?thesis .
qed

lemma visit_expands:
  assumes "sameRGB w h d0 d" "dir \<in> set directions"
  shows "expands w h tc d0 (x, y) s (visitNeighbour d w h tc x y dir s) \<and>
         (inImage w h (x + fst dir, y + snd dir) \<and>
          withinTolerance tc d0 w (x + fst dir, y + snd dir)
          \<longrightarrow> snd (visitNeighbour d w h tc x y dir s) (idx w (x + fst dir, y + snd dir)))"
proof -
  obtain q vis where s: "s = (q, vis)" by (cases s)
  obtain dx dy where dir: "dir = (dx, dy)" by (cases dir)
  let ?n = "(x + dx, y + dy)"
  have adj: "adjacent4 (x, y) ?n"
    using assms(2) unfolding adjacent4_directions dir by force
  show ?thesis
  proof (cases "inImage w h ?n")
    case False
    then have "visitNeighbour d w h tc x y (dx, dy) (q, vis) = (q, vis)"
      by (auto simp: visitNeighbour_def inImage_def Let_def)
    with False show ?thesis unfolding s dir by (simp add: expands_refl)
  next
    case True
    then have tgt: "isTargetColor d w tc (x + dx) (y + dy) = withinTolerance tc d0 w ?n"
      using sameRGB_target [OF assms(1)] by blast
    have ix: "(y + dy) * int w + (x + dx) = idx w ?n" by (simp add: idx_def)
    have cond: "x + dx \<ge> 0 \<and> x + dx < int w \<and> y + dy \<ge> 0 \<and> y + dy < int h"
      using True by (simp add: inImage_def)
    show ?thesis
    proof (cases "\<not> vis (idx w ?n) \<and> withinTolerance tc d0 w ?n")
      case push: True
      have v: "visitNeighbour d w h tc x y (dx, dy) (q, vis) = (q @ [?n], vis(idx w ?n := True))"
        unfolding visitNeighbour_def prod.case Let_def ix tgt using cond push by simp
      show ?thesis unfolding s dir v using True push adj
        by (auto simp: expands_def)
    next
      case nopush: False
      have v: "visitNeighbour d w h tc x y (dx, dy) (q, vis) = (q, vis)"
        unfolding visitNeighbour_def prod.case Let_def ix tgt using cond nopush by auto
      show ?thesis unfolding s dir v using nopush by (auto simp: expands_refl)
    qed
  qed
qed

lemma fold_expands:
  assumes "sameRGB w h d0 d" "set ds \<subseteq> set directions"
  shows "expands w h tc d0 (x, y) s (fold (visitNeighbour d w h tc x y) ds s) \<and>
         (\<forall>dir \<in> set ds. inImage w h (x + fst dir, y + snd dir) \<and>
              withinTolerance tc d0 w (x + fst dir, y + snd dir)
              \<longrightarrow> snd (fold (visitNeighbour d w h tc x y) ds s) (idx w (x + fst dir, y + snd dir)))"
  using assms(2)
proof (induction ds arbitrary: s)
  case Nil
  show ?case by (simp add: expands_refl)
next
  case (Cons a ds)
  let ?s1 = "visitNeighbour d w h tc x y a s"
  let ?s2 = "fold (visitNeighbour d w h tc x y) ds ?s1"
  have a: "a \<in> set directions" and ds: "set ds \<subseteq> set directions" using Cons.prems by simp_all
  from visit_expands [OF assms(1) a, of tc x y s]
  have e1: "expands w h tc d0 (x, y) s ?s1"
    and g1: "inImage w h (x + fst a, y + snd a) \<and> withinTolerance tc d0 w (x + fst a, y + snd a)
          \<longrightarrow> snd ?s1 (idx w (x + fst a, y + snd a))" by blast+
  from Cons.IH [OF ds, of ?s1]
  have e2: "expands w h tc d0 (x, y) ?s1 ?s2"
    and g2: "\<forall>dir \<in> set ds. inImage w h (x + fst dir, y + snd dir) \<and>
              withinTolerance tc d0 w (x + fst dir, y + snd dir)
              \<longrightarrow> snd ?s2 (idx w (x + fst dir, y + snd dir))" by blast+
  have mono: "\<forall>i. snd ?s1 i \<longrightarrow> snd ?s2 i" using e2 unfolding expands_def by blast
  have "expands w h tc d0 (x, y) s ?s2" using expands_trans [OF e1 e2] .
  moreover have "\<forall>dir \<in> set (a # ds). inImage w h (x + fst dir, y + snd dir) \<and>
              withinTolerance tc d0 w (x + fst dir, y + snd dir)
              \<longrightarrow> snd ?s2 (idx w (x + fst dir, y + snd dir))"
    using g1 g2 mono by auto
  ultimately show ?case by simp
qed

subsection \<open>The invariant of the flood loop\<close>

lemma sameRGB_wr:
  assumes "sameRGB w h d0 d"
  shows "sameRGB w h d0 (wr d (k * 4 + 3) 0)"
  using assms by (simp add: sameRGB_def wr_length wr_rgb)

lemma floodStep_inv:
  assumes "floodInv w h tc d0 (p # q, vis, d)"
  shows "floodInv w h tc d0 (floodStep w h tc p q vis d)"
proof -
  let ?M = "withinTolerance tc d0 w"
  obtain x y where p: "p = (x, y)" by (cases p)
  let ?d = "wr d (idx w p * 4 + 3) 0"
  obtain q' vis' where f: "fold (visitNeighbour ?d w h tc x y) directions (q, vis) = (q', vis')"
    by (cases "fold (visitNeighbour ?d w h tc x y) directions (q, vis)")
  have step: "floodStep w h tc p q vis d = (q', vis', ?d)"
    using f by (simp add: floodStep_def p Let_def idx_def)
  from assms have inv: "sameRGB w h d0 d \<and>
        (\<forall>r \<in> set (p # q). inImage w h r \<and> ?M r \<and> vis (idx w r)) \<and>
        (\<forall>r. inImage w h r \<and> vis (idx w r) \<longrightarrow> borderConnected tc d0 w h r) \<and>
        (\<forall>r. inImage w h r \<and> vis (idx w r) \<and> r \<notin> set (p # q) \<longrightarrow>
             alphaAt d w r = 0 \<and>
             (\<forall>n. adjacent4 r n \<and> inImage w h n \<and> ?M n \<longrightarrow> vis (idx w n))) \<and>
        (\<forall>r. inImage w h r \<and> \<not> vis (idx w r) \<longrightarrow> alphaAt d w r = alphaAt d0 w r) \<and>
        (\<forall>r. inImage w h r \<and> onBorder w h r \<and> ?M r \<longrightarrow> vis (idx w r))"
    unfolding floodInv_def prod.case .
  note i1 = inv [THEN conjunct1]
    and i2 = inv [THEN conjunct2, THEN conjunct1]
    and i3 = inv [THEN conjunct2, THEN conjunct2, THEN conjunct1]
    and i4 = inv [THEN conjunct2, THEN conjunct2, THEN conjunct2, THEN conjunct1]
    and i5 = inv [THEN conjunct2, THEN conjunct2, THEN conjunct2, THEN conjunct2, THEN conjunct1]
    and i6 = inv [THEN conjunct2, THEN conjunct2, THEN conjunct2, THEN conjunct2, THEN conjunct2]
  have rgb: "sameRGB w h d0 d" using i1 .
  have iq: "\<And>r. r \<in> set (p # q) \<Longrightarrow> inImage w h r \<and> ?M r \<and> vis (idx w r)"
    using i2 by blast
  have ic: "\<And>r. inImage w h r \<Longrightarrow> vis (idx w r) \<Longrightarrow> borderConnected tc d0 w h r"
    using i3 by blast
  have id: "\<And>r. inImage w h r \<Longrightarrow> vis (idx w r) \<Longrightarrow> r \<notin> set (p # q) \<Longrightarrow>
           alphaAt d w r = 0 \<and>
           (\<forall>n. adjacent4 r n \<and> inImage w h n \<and> ?M n \<longrightarrow> vis (idx w n))"
    using i4 by blast
  have ie: "\<And>r. inImage w h r \<Longrightarrow> \<not> vis (idx w r) \<Longrightarrow> alphaAt d w r = alphaAt d0 w r"
    using i5 by blast
  have ib: "\<And>r. inImage w h r \<Longrightarrow> onBorder w h r \<Longrightarrow> ?M r \<Longrightarrow> vis (idx w r)"
    using i6 by blast
  have pin: "inImage w h p" and pm: "?M p" and pv: "vis (idx w p)" using iq [of p] by simp_all
  have pbc: "borderConnected tc d0 w h p" using ic [OF pin pv] .
  have rgb': "sameRGB w h d0 ?d" using rgb by (rule sameRGB_wr)
  have len: "length d = 4 * w * h" using rgb by (simp add: sameRGB_def)
  have alpha: "alphaAt ?d w r = (if r = p then 0 else alphaAt d w r)" if "inImage w h r" for r
    using alphaAt_wr [OF len pin that] .
  from fold_expands [OF rgb' subset_refl, of tc x y "(q, vis)"] f
  have ex: "expands w h tc d0 p (q, vis) (q', vis')"
    and nb: "\<And>dir. dir \<in> set directions \<Longrightarrow> inImage w h (x + fst dir, y + snd dir) \<Longrightarrow>
              ?M (x + fst dir, y + snd dir) \<Longrightarrow> vis' (idx w (x + fst dir, y + snd dir))"
    by (simp_all add: p)
  from ex have mono: "\<And>i. vis i \<Longrightarrow> vis' i"
    and sub: "set q \<subseteq> set q'"
    and new: "\<And>n. n \<in> set q' \<Longrightarrow> n \<in> set q \<or>
                (inImage w h n \<and> ?M n \<and> adjacent4 p n \<and> vis' (idx w n))"
    and vnew: "\<And>i. vis' i \<Longrightarrow> vis i \<or>
                (\<exists>n \<in> set q'. idx w n = i \<and> inImage w h n \<and> ?M n \<and> adjacent4 p n)"
    unfolding expands_def by simp_all
  have nbs: "vis' (idx w n)" if "adjacent4 p n" "inImage w h n" "?M n" for n
  proof -
    from that(1) obtain dir where "dir \<in> set directions" "n = (x + fst dir, y + snd dir)"
      unfolding p adjacent4_directions by blast
    with nb [of dir] that show ?thesis by simp
  qed
  have c2: "\<forall>r \<in> set q'. inImage w h r \<and> ?M r \<and> vis' (idx w r)"
  proof
    fix r assume "r \<in> set q'"
    from new [OF this] show "inImage w h r \<and> ?M r \<and> vis' (idx w r)"
    proof
      assume "r \<in> set q"
      then have "r \<in> set (p # q)" by simp
      from iq [OF this] mono show ?thesis by simp
    next
      assume "inImage w h r \<and> ?M r \<and> adjacent4 p r \<and> vis' (idx w r)"
      then show ?thesis by simp
    qed
  qed
  have old_or_queued: "vis (idx w r) \<or> r \<in> set q'" if "inImage w h r" "vis' (idx w r)" for r
  proof -
    from vnew [OF that(2)] show ?thesis
    proof
      assume "vis (idx w r)" then show ?thesis by simp
    next
      assume "\<exists>n \<in> set q'. idx w n = idx w r \<and> inImage w h n \<and> ?M n \<and> adjacent4 p n"
      then obtain n where n: "n \<in> set q'" "idx w n = idx w r" "inImage w h n" by blast
      from idx_inj [OF n(3) that(1) n(2)] n(1) show ?thesis by simp
    qed
  qed
  have c3: "\<forall>r. inImage w h r \<and> vis' (idx w r) \<longrightarrow> borderConnected tc d0 w h r"
  proof (intro allI impI)
    fix r assume r: "inImage w h r \<and> vis' (idx w r)"
    then have "vis' (idx w r)" by simp
    from vnew [OF this] show "borderConnected tc d0 w h r"
    proof
      assume "vis (idx w r)"
      with r ic show ?thesis by simp
    next
      assume "\<exists>n \<in> set q'. idx w n = idx w r \<and> inImage w h n \<and> ?M n \<and> adjacent4 p n"
      then obtain n where n: "idx w n = idx w r" "inImage w h n" "?M n" "adjacent4 p n" by blast
      from r idx_inj [OF n(2) _ n(1)] have "n = r" by simp
      with n show ?thesis using borderConnected.step [OF pbc, of r] by simp
    qed
  qed
  have c4: "\<forall>r. inImage w h r \<and> vis' (idx w r) \<and> r \<notin> set q' \<longrightarrow>
             alphaAt ?d w r = 0 \<and>
             (\<forall>n. adjacent4 r n \<and> inImage w h n \<and> ?M n \<longrightarrow> vis' (idx w n))"
  proof (intro allI impI)
    fix r assume r: "inImage w h r \<and> vis' (idx w r) \<and> r \<notin> set q'"
    show "alphaAt ?d w r = 0 \<and> (\<forall>n. adjacent4 r n \<and> inImage w h n \<and> ?M n \<longrightarrow> vis' (idx w n))"
    proof (cases "r = p")
      case True
      then show ?thesis using alpha [OF pin] nbs by simp
    next
      case False
      from old_or_queued [of r] r have v: "vis (idx w r)" by blast
      have "r \<notin> set (p # q)" using False r sub by auto
      from id [OF _ v this] r
      have "alphaAt d w r = 0"
        and "\<forall>n. adjacent4 r n \<and> inImage w h n \<and> ?M n \<longrightarrow> vis (idx w n)" by simp_all
      then show ?thesis using alpha [of r] r False mono by auto
    qed
  qed
  have c5: "\<forall>r. inImage w h r \<and> \<not> vis' (idx w r) \<longrightarrow> alphaAt ?d w r = alphaAt d0 w r"
  proof (intro allI impI)
    fix r assume r: "inImage w h r \<and> \<not> vis' (idx w r)"
    then have nv: "\<not> vis (idx w r)" using mono by blast
    then have "r \<noteq> p" using pv by auto
    then show "alphaAt ?d w r = alphaAt d0 w r" using alpha [of r] ie [of r] r nv by simp
  qed
  have c6: "\<forall>r. inImage w h r \<and> onBorder w h r \<and> ?M r \<longrightarrow> vis' (idx w r)"
    using ib mono by blast
  from rgb' c2 c3 c4 c5 c6 show ?thesis unfolding step floodInv_def prod.case by (intro conjI)
qed

lemma floodInv_done:
  assumes "floodInv w h tc d0 ([], vis, d)" "inImage w h p"
  shows "alphaAt d w p = (if borderConnected tc d0 w h p then 0 else alphaAt d0 w p)"
proof -
  let ?M = "withinTolerance tc d0 w"
  from assms(1) have inv: "sameRGB w h d0 d \<and>
        (\<forall>r \<in> set []. inImage w h r \<and> ?M r \<and> vis (idx w r)) \<and>
        (\<forall>r. inImage w h r \<and> vis (idx w r) \<longrightarrow> borderConnected tc d0 w h r) \<and>
        (\<forall>r. inImage w h r \<and> vis (idx w r) \<and> r \<notin> set [] \<longrightarrow>
             alphaAt d w r = 0 \<and>
             (\<forall>n. adjacent4 r n \<and> inImage w h n \<and> ?M n \<longrightarrow> vis (idx w n))) \<and>
        (\<forall>r. inImage w h r \<and> \<not> vis (idx w r) \<longrightarrow> alphaAt d w r = alphaAt d0 w r) \<and>
        (\<forall>r. inImage w h r \<and> onBorder w h r \<and> ?M r \<longrightarrow> vis (idx w r))"
    unfolding floodInv_def prod.case .
  note i3 = inv [THEN conjunct2, THEN conjunct2, THEN conjunct1]
    and i4 = inv [THEN conjunct2, THEN conjunct2, THEN conjunct2, THEN conjunct1]
    and i5 = inv [THEN conjunct2, THEN conjunct2, THEN conjunct2, THEN conjunct2, THEN conjunct1]
    and i6 = inv [THEN conjunct2, THEN conjunct2, THEN conjunct2, THEN conjunct2, THEN conjunct2]
  have ic: "\<And>r. inImage w h r \<Longrightarrow> vis (idx w r) \<Longrightarrow> borderConnected tc d0 w h r"
    using i3 by blast
  have id: "\<And>r. inImage w h r \<Longrightarrow> vis (idx w r) \<Longrightarrow>
           alphaAt d w r = 0 \<and>
           (\<forall>n. adjacent4 r n \<and> inImage w h n \<and> ?M n \<longrightarrow> vis (idx w n))"
    using i4 by (simp del: split_paired_All)
  have ie: "\<And>r. inImage w h r \<Longrightarrow> \<not> vis (idx w r) \<Longrightarrow> alphaAt d w r = alphaAt d0 w r"
    using i5 by blast
  have ib: "\<And>r. inImage w h r \<Longrightarrow> onBorder w h r \<Longrightarrow> ?M r \<Longrightarrow> vis (idx w r)"
    using i6 by blast
  have reach: "inImage w h r \<and> vis (idx w r)" if "borderConnected tc d0 w h r" for r
    using that
  proof (induction rule: borderConnected.induct)
    case (border r)
    then show ?case using ib by simp
  next
    case (step r n)
    then show ?case using id [of r] by blast
  qed
  show ?thesis
  proof (cases "borderConnected tc d0 w h p")
    case True
    from reach [OF True] id [of p] True show ?thesis by simp
  next
    case False
    then have "\<not> vis (idx w p)" using ic [OF assms(2)] by blast
    from ie [OF assms(2) this] False show ?thesis by simp
  qed
qed

lemma floodFill_inv:
  "floodInv w h tc d0 st \<Longrightarrow> inImage w h p \<Longrightarrow>
   alphaAt (floodFill w h tc st) w p = (if borderConnected tc d0 w h p then 0 else alphaAt d0 w p)"
proof (induction w h tc st rule: floodFill.induct)
  case (1 w h tc vis d)
  from floodInv_done [OF "1.prems"] show ?case by simp
next
  case (2 w h tc r q vis d)
  from floodStep_inv [OF "2.prems"(1)] "2.IH" "2.prems"(2) show ?case by simp
qed

lemma floodStep_frame:
  "length (snd (snd (floodStep w h tc p q vis d))) = length d \<and>
   (\<forall>i. i mod 4 \<noteq> 3 \<longrightarrow> snd (snd (floodStep w h tc p q vis d)) ! i = d ! i)"
proof -
  obtain x y where p: "p = (x, y)" by (cases p)
  have "snd (snd (floodStep w h tc p q vis d)) = wr d ((y * int w + x) * 4 + 3) 0"
    by (simp only: floodStep_def p prod.case Let_def split_beta snd_conv fst_conv)
  then have e: "snd (snd (floodStep w h tc p q vis d)) = wr d ((y * int w + x) * 4 + 3) 0" .
  have "\<forall>i. i mod 4 \<noteq> 3 \<longrightarrow> wr d ((y * int w + x) * 4 + 3) 0 ! i = d ! i"
    using wr_rgb [of _ d "y * int w + x" 0] by blast
  then show ?thesis unfolding e wr_length by blast
qed

lemma floodFill_frame:
  "length (floodFill w h tc st) = length (snd (snd st)) \<and>
   (\<forall>i. i mod 4 \<noteq> 3 \<longrightarrow> floodFill w h tc st ! i = snd (snd st) ! i)"
proof (induction w h tc st rule: floodFill.induct)
  case (1 w h tc vis d)
  show ?case by simp
next
  case (2 w h tc p q vis d)
  from "2.IH" floodStep_frame [of w h tc p q vis d] show ?case by simp
qed

subsection \<open>Seeding the edges\<close>

lemma fold_pairs:
  "fold (\<lambda>x s. f (b x) (f (a x) s)) xs s = fold f (concat (map (\<lambda>x. [a x, b x]) xs)) s"
  by (induction xs arbitrary: s) simp_all

lemma seedEdges_edgeCoords:
  "seedEdges d w h tc =
   fold (\<lambda>c s. pushEdge d w tc (fst c) (snd c) s) (edgeCoords w h) ([], \<lambda>i. False)"
proof -
  let ?f = "\<lambda>c s. pushEdge d w tc (fst c) (snd c) s"
  have 1: "fold (\<lambda>x s. pushEdge d w tc (int x) (int h - 1) (pushEdge d w tc (int x) 0 s)) xs s
         = fold ?f (concat (map (\<lambda>x. [(int x, 0), (int x, int h - 1)]) xs)) s" for xs s
    using fold_pairs [of ?f "\<lambda>x. (int x, int h - 1)" "\<lambda>x. (int x, 0)" xs s] by simp
  have 2: "fold (\<lambda>y s. pushEdge d w tc (int w - 1) (int y) (pushEdge d w tc 0 (int y) s)) ys s
         = fold ?f (concat (map (\<lambda>y. [(0, int y), (int w - 1, int y)]) ys)) s" for ys s
    using fold_pairs [of ?f "\<lambda>y. (int w - 1, int y)" "\<lambda>y. (0, int y)" ys s] by simp
  show ?thesis
    by (simp only: seedEdges_def Let_def 1 2 edgeCoords_def fold_append comp_def)
qed

lemma in_concat_map: "x \<in> set xs \<Longrightarrow> c \<in> set (f x) \<Longrightarrow> c \<in> set (concat (map f xs))"
  by auto

lemma edgeCoords_sound:
  assumes "0 < w" "0 < h" "c \<in> set (edgeCoords w h)"
  shows "inImage w h c \<and> onBorder w h c"
  using assms by (auto simp: edgeCoords_def inImage_def onBorder_def)

lemma edgeCoords_complete:
  assumes "inImage w h p" "onBorder w h p"
  shows "p \<in> set (edgeCoords w h)"
proof -
  obtain x y where p: "p = (x, y)" by (cases p)
  from assms p have b: "0 \<le> x" "x < int w" "0 \<le> y" "y < int h"
    and e: "x = 0 \<or> y = 0 \<or> x = int w - 1 \<or> y = int h - 1"
    by (simp_all add: inImage_def onBorder_def)
  have xs: "nat x \<in> set [0 ..< w]" "int (nat x) = x" using b by simp_all
  have ys: "nat y \<in> set [0 ..< h]" "int (nat y) = y" using b by simp_all
  have col: "c \<in> set (edgeCoords w h)"
    if "c \<in> set [(int (nat x), 0), (int (nat x), int h - 1)]" for c
  proof -
    from in_concat_map [OF xs(1), of c "\<lambda>x. [(int x, 0), (int x, int h - 1)]"] that
    show ?thesis unfolding edgeCoords_def by simp
  qed
  have row: "c \<in> set (edgeCoords w h)"
    if "c \<in> set [(0, int (nat y)), (int w - 1, int (nat y))]" for c
  proof -
    from in_concat_map [OF ys(1), of c "\<lambda>y. [(0, int y), (int w - 1, int y)]"] that
    show ?thesis unfolding edgeCoords_def by simp
  qed
  from e show ?thesis
  proof (elim disjE)
    assume "x = 0"
    then have "p \<in> set [(0, int (nat y)), (int w - 1, int (nat y))]" using p ys by simp
    then show ?thesis by (rule row)
  next
    assume "y = 0"
    then have "p \<in> set [(int (nat x), 0), (int (nat x), int h - 1)]" using p xs by simp
    then show ?thesis by (rule col)
  next
    assume "x = int w - 1"
    then have "p \<in> set [(0, int (nat y)), (int w - 1, int (nat y))]" using p ys by simp
    then show ?thesis by (rule row)
  next
    assume "y = int h - 1"
    then have "p \<in> set [(int (nat x), 0), (int (nat x), int h - 1)]" using p xs by simp
    then show ?thesis by (rule col)
  qed
qed

lemma pushEdge_seed:
  assumes "length d0 = 4 * w * h" "inImage w h c" "onBorder w h c" "seedInv w h tc d0 s"
  shows "seedInv w h tc d0 (pushEdge d0 w tc (fst c) (snd c) s) \<and>
         (\<forall>i. snd s i \<longrightarrow> snd (pushEdge d0 w tc (fst c) (snd c) s) i) \<and>
         (withinTolerance tc d0 w c \<longrightarrow> snd (pushEdge d0 w tc (fst c) (snd c) s) (idx w c))"
proof -
  obtain q vis where s: "s = (q, vis)" by (cases s)
  obtain x y where c: "c = (x, y)" by (cases c)
  have tgt: "isTargetColor d0 w tc x y = withinTolerance tc d0 w c"
    using isTargetColor_within [OF assms(1)] assms(2) c by simp
  have ix: "y * int w + x = idx w c" by (simp add: idx_def c)
  show ?thesis
  proof (cases "withinTolerance tc d0 w c")
    case True
    have v: "pushEdge d0 w tc (fst c) (snd c) s = (q @ [c], vis(idx w c := True))"
      unfolding pushEdge_def s c fst_conv snd_conv prod.case tgt [unfolded c] ix [unfolded c]
      using True c by simp
    show ?thesis unfolding v using assms(2,3,4) True
      by (auto simp: seedInv_def s)
  next
    case False
    have v: "pushEdge d0 w tc (fst c) (snd c) s = s"
      unfolding pushEdge_def s c fst_conv snd_conv prod.case tgt [unfolded c]
      using False c by simp
    show ?thesis unfolding v using assms(4) False by simp
  qed
qed

lemma pushAll_seed:
  assumes "length d0 = 4 * w * h" "\<forall>c \<in> set cs. inImage w h c \<and> onBorder w h c"
    "seedInv w h tc d0 s"
  shows "seedInv w h tc d0 (fold (\<lambda>c s. pushEdge d0 w tc (fst c) (snd c) s) cs s) \<and>
         (\<forall>i. snd s i \<longrightarrow> snd (fold (\<lambda>c s. pushEdge d0 w tc (fst c) (snd c) s) cs s) i) \<and>
         (\<forall>c \<in> set cs. withinTolerance tc d0 w c
             \<longrightarrow> snd (fold (\<lambda>c s. pushEdge d0 w tc (fst c) (snd c) s) cs s) (idx w c))"
  using assms(2,3)
proof (induction cs arbitrary: s)
  case Nil
  then show ?case by simp
next
  case (Cons a cs)
  let ?f = "\<lambda>c s. pushEdge d0 w tc (fst c) (snd c) s"
  let ?s1 = "pushEdge d0 w tc (fst a) (snd a) s"
  have a: "inImage w h a" "onBorder w h a" using Cons.prems(1) by simp_all
  from pushEdge_seed [OF assms(1) a Cons.prems(2)]
  have s1: "seedInv w h tc d0 ?s1" and m1: "\<forall>i. snd s i \<longrightarrow> snd ?s1 i"
    and g1: "withinTolerance tc d0 w a \<longrightarrow> snd ?s1 (idx w a)" by blast+
  have cs: "\<forall>c \<in> set cs. inImage w h c \<and> onBorder w h c" using Cons.prems(1) by simp
  from Cons.IH [OF cs s1]
  have s2: "seedInv w h tc d0 (fold ?f cs ?s1)"
    and m2: "\<forall>i. snd ?s1 i \<longrightarrow> snd (fold ?f cs ?s1) i"
    and g2: "\<forall>c \<in> set cs. withinTolerance tc d0 w c \<longrightarrow> snd (fold ?f cs ?s1) (idx w c)"
    by blast+
  have "\<forall>i. snd s i \<longrightarrow> snd (fold ?f cs ?s1) i" using m1 m2 by blast
  moreover have "\<forall>c \<in> set (a # cs). withinTolerance tc d0 w c
      \<longrightarrow> snd (fold ?f cs ?s1) (idx w c)" using g1 g2 m2 by auto
  ultimately show ?case using s2 by simp
qed

lemma seedEdges_floodInv:
  assumes "length d0 = 4 * w * h" "0 < w" "0 < h"
  shows "floodInv w h tc d0 (fst (seedEdges d0 w h tc), snd (seedEdges d0 w h tc), d0)"
proof -
  let ?s = "seedEdges d0 w h tc"
  let ?M = "withinTolerance tc d0 w"
  have init: "seedInv w h tc d0 ([], \<lambda>i. False)" by (simp add: seedInv_def)
  have cs: "\<forall>c \<in> set (edgeCoords w h). inImage w h c \<and> onBorder w h c"
    using edgeCoords_sound [OF assms(2,3)] by blast
  from pushAll_seed [OF assms(1) cs init, of ] 
  have si: "seedInv w h tc d0 ?s"
    and cov: "\<forall>c \<in> set (edgeCoords w h). ?M c \<longrightarrow> snd ?s (idx w c)"
    unfolding seedEdges_edgeCoords by blast+
  from si have q: "\<And>p. p \<in> set (fst ?s) \<Longrightarrow> inImage w h p \<and> onBorder w h p \<and> ?M p \<and> snd ?s (idx w p)"
    and v: "\<And>i. snd ?s i \<Longrightarrow> \<exists>p \<in> set (fst ?s). idx w p = i"
    unfolding seedInv_def by blast+
  have queued: "p \<in> set (fst ?s)" if "inImage w h p" "snd ?s (idx w p)" for p
  proof -
    from v [OF that(2)] obtain r where r: "r \<in> set (fst ?s)" "idx w r = idx w p" by blast
    from q [OF r(1)] have "inImage w h r" by simp
    from idx_inj [OF this that(1) r(2)] r(1) show ?thesis by simp
  qed
  have c1: "sameRGB w h d0 d0" using assms(1) by (simp add: sameRGB_def)
  have c2: "\<forall>p \<in> set (fst ?s). inImage w h p \<and> ?M p \<and> snd ?s (idx w p)" using q by blast
  have c3: "\<forall>p. inImage w h p \<and> snd ?s (idx w p) \<longrightarrow> borderConnected tc d0 w h p"
  proof (intro allI impI)
    fix p assume "inImage w h p \<and> snd ?s (idx w p)"
    then have "p \<in> set (fst ?s)" using queued by blast
    from q [OF this] show "borderConnected tc d0 w h p" by (intro borderConnected.border) simp_all
  qed
  have c4: "\<forall>p. inImage w h p \<and> snd ?s (idx w p) \<and> p \<notin> set (fst ?s) \<longrightarrow>
             alphaAt d0 w p = 0 \<and>
             (\<forall>n. adjacent4 p n \<and> inImage w h n \<and> ?M n \<longrightarrow> snd ?s (idx w n))"
    using queued by blast
  have c5: "\<forall>p. inImage w h p \<and> \<not> snd ?s (idx w p) \<longrightarrow> alphaAt d0 w p = alphaAt d0 w p" by simp
  have c6: "\<forall>p. inImage w h p \<and> onBorder w h p \<and> ?M p \<longrightarrow> snd ?s (idx w p)"
    using cov edgeCoords_complete by blast
  from c1 c2 c3 c4 c5 c6 show ?thesis unfolding floodInv_def prod.case by (intro conjI)
qed

lemma createTransparentVersion_alpha:
  assumes "length d = 4 * w * h" "inImage w h p"
  shows "alphaAt (createTransparentVersion tc d w h) w p =
         (if borderConnected tc d w h p then 0 else alphaAt d w p)"
proof -
  obtain x y where p: "p = (x, y)" by (cases p)
  from assms(2) have w: "0 < w" and h: "0 < h" unfolding p inImage_def by auto
  have ctv: "createTransparentVersion tc d w h =
     floodFill w h tc (fst (seedEdges d w h tc), snd (seedEdges d w h tc), d)"
    by (simp add: createTransparentVersion_def split_beta)
  from floodFill_inv [OF seedEdges_floodInv [OF assms(1) w h] assms(2)]
  show ?thesis by (simp only: ctv)
qed

lemma createTransparentVersion_frame:
  "length (createTransparentVersion tc d w h) = length d \<and>
   (\<forall>i. i mod 4 \<noteq> 3 \<longrightarrow> createTransparentVersion tc d w h ! i = d ! i)"
proof -
  have ctv: "createTransparentVersion tc d w h =
     floodFill w h tc (fst (seedEdges d w h tc), snd (seedEdges d w h tc), d)"
    by (simp add: createTransparentVersion_def split_beta)
  from floodFill_frame [of w h tc "(fst (seedEdges d w h tc), snd (seedEdges d w h tc), d)"]
  show ?thesis unfolding ctv by simp
qed

text \<open>
  Claim C1. For a buffer of \<open>4 * width * height\<close> bytes, a target colour and the fixed
  tolerance 5, and every pixel of the image: after the matte the pixel's alpha is 0 if the
  pixel belongs to the closure, under steps to 4-connected pixels within the tolerance of
  the target on red, green and blue, of the border pixels within the tolerance; otherwise
  its alpha is the one it had. So the pixels removed are exactly that closure, and a pixel
  of the target colour that is not connected to the border keeps its alpha.
\<close>

theorem matte_is_border_closure:
  assumes "length d = 4 * w * h" and "inImage w h p"
  shows "alphaAt (createTransparentVersion tc d w h) w p =
         (if borderConnected tc d w h p then 0 else alphaAt d w p)"
  using assms by (rule createTransparentVersion_alpha)

text \<open>
  Claim C8. On a heap of buffers, the matte of the buffer \<open>src\<close> allocates one new buffer
  and leaves every buffer that existed, the input among them, as it was. The new buffer
  has the length of the input and the same byte at every position that is not an alpha
  byte; and a pixel whose alpha differs from the input's belongs to the closure that the
  flood fill removes.
\<close>

theorem matte_frame:
  assumes "src < length hp" and "length (hp ! src) = 4 * w * h"
  shows "fst (createTransparentVersionOn hp src tc w h) = length hp \<and>
         length (snd (createTransparentVersionOn hp src tc w h)) = Suc (length hp) \<and>
         (\<forall>a < length hp. snd (createTransparentVersionOn hp src tc w h) ! a = hp ! a) \<and>
         length (snd (createTransparentVersionOn hp src tc w h) ! length hp) = length (hp ! src) \<and>
         (\<forall>i < length (hp ! src). i mod 4 \<noteq> 3 \<longrightarrow>
             snd (createTransparentVersionOn hp src tc w h) ! length hp ! i = hp ! src ! i) \<and>
         (\<forall>p. inImage w h p \<and>
              alphaAt (snd (createTransparentVersionOn hp src tc w h) ! length hp) w p
                \<noteq> alphaAt (hp ! src) w p
              \<longrightarrow> borderConnected tc (hp ! src) w h p)"
proof -
  let ?d = "hp ! src"
  let ?out = "createTransparentVersion tc ?d w h"
  have new: "(hp @ [?d]) ! length hp = ?d" by simp
  have on: "createTransparentVersionOn hp src tc w h = (length hp, (hp @ [?d])[length hp := ?out])"
    by (simp only: createTransparentVersionOn_def Let_def new)
  have out: "snd (createTransparentVersionOn hp src tc w h) ! length hp = ?out"
    by (simp add: on)
  have old: "\<forall>a < length hp. snd (createTransparentVersionOn hp src tc w h) ! a = hp ! a"
    by (simp add: on nth_append)
  have alpha: "\<forall>p. inImage w h p \<and> alphaAt ?out w p \<noteq> alphaAt ?d w p
      \<longrightarrow> borderConnected tc ?d w h p"
    using createTransparentVersion_alpha [OF assms(2), of _ tc] by metis
  show ?thesis
    unfolding out using old alpha createTransparentVersion_frame [of tc ?d w h]
    by (simp add: on)
qed

lemma borderConnected_within:
  "borderConnected tc d w h p \<Longrightarrow> inImage w h p \<and> withinTolerance tc d w p"
  by (erule borderConnected.cases) simp_all

lemma adjacent4_sym: "adjacent4 p q \<longleftrightarrow> adjacent4 q p"
  by (simp add: adjacent4_def abs_minus_commute)

lemma example_corner: "borderConnected white example3x3 3 3 (0, 0)"
  by (rule borderConnected.border)
    (simp_all add: inImage_def onBorder_def withinTolerance_def channelAt_def example3x3_def white_def)

lemma example_centre: "\<not> borderConnected white example3x3 3 3 (1, 1)"
proof
  assume "borderConnected white example3x3 3 3 (1, 1)"
  then show False
  proof (cases rule: borderConnected.cases)
    case border
    then show False by (simp add: onBorder_def)
  next
    case (step p)
    from step(1) have m: "withinTolerance white example3x3 3 p"
      using borderConnected_within by blast
    from step(2) have "adjacent4 (1, 1) p" by (simp only: adjacent4_sym)
    then have "p = (0, 1) \<or> p = (2, 1) \<or> p = (1, 0) \<or> p = (1, 2)"
      unfolding adjacent4_directions directions_def by auto
    with m show False
      by (auto simp: withinTolerance_def channelAt_def example3x3_def white_def)
  qed
qed

text \<open>
  In the example the white corner is removed and the white centre, which has only black
  neighbours, keeps its alpha 255.
\<close>

theorem matte_is_border_closure_witness:
  "length example3x3 = 4 * 3 * 3 \<and> inImage 3 3 (0, 0) \<and> inImage 3 3 (1, 1) \<and>
   alphaAt (createTransparentVersion white example3x3 3 3) 3 (0, 0) = 0 \<and>
   alphaAt (createTransparentVersion white example3x3 3 3) 3 (1, 1) = 255"
proof -
  have len: "length example3x3 = 4 * 3 * 3" by (simp add: example3x3_def)
  have i0: "inImage 3 3 (0, 0)" and i1: "inImage 3 3 (1, 1)" by (simp_all add: inImage_def)
  have a1: "alphaAt example3x3 3 (1, 1) = 255"
    by (simp add: alphaAt_def channelAt_def example3x3_def)
  from matte_is_border_closure [OF len i0, of white] example_corner
  have "alphaAt (createTransparentVersion white example3x3 3 3) 3 (0, 0) = 0" by simp
  moreover from matte_is_border_closure [OF len i1, of white] example_centre a1
  have "alphaAt (createTransparentVersion white example3x3 3 3) 3 (1, 1) = 255" by simp
  ultimately show ?thesis using len i0 i1 by simp
qed

text \<open>The example as the only buffer of a heap: the matte is buffer 1, buffer 0 is unchanged.\<close>

theorem matte_frame_witness:
  "(0::nat) < length [example3x3] \<and> length ([example3x3] ! 0) = 4 * 3 * 3 \<and>
   fst (createTransparentVersionOn [example3x3] 0 white 3 3) = 1 \<and>
   snd (createTransparentVersionOn [example3x3] 0 white 3 3) ! 0 = example3x3 \<and>
   snd (createTransparentVersionOn [example3x3] 0 white 3 3) ! 1 ! 0 = 255"
proof -
  have s: "(0::nat) < length [example3x3]" by simp
  have len: "length ([example3x3] ! 0) = 4 * 3 * 3" by (simp add: example3x3_def)
  have r: "[example3x3] ! 0 ! 0 = 255" by (simp add: example3x3_def)
  have lt: "(0::nat) < length ([example3x3] ! 0)" by (simp add: example3x3_def)
  from matte_frame [OF s len, of white]
  have f: "fst (createTransparentVersionOn [example3x3] 0 white 3 3) = length [example3x3]"
    and o: "\<forall>a < length [example3x3].
          snd (createTransparentVersionOn [example3x3] 0 white 3 3) ! a = [example3x3] ! a"
    and c: "\<forall>i < length ([example3x3] ! 0). i mod 4 \<noteq> 3 \<longrightarrow>
          snd (createTransparentVersionOn [example3x3] 0 white 3 3) ! length [example3x3] ! i
          = [example3x3] ! 0 ! i"
    by blast+
  from o have "snd (createTransparentVersionOn [example3x3] 0 white 3 3) ! 0 = example3x3"
    by simp
  moreover from c lt r
  have "snd (createTransparentVersionOn [example3x3] 0 white 3 3) ! 1 ! 0 = 255" by simp
  ultimately show ?thesis using f s len by simp
qed

end
